theory Spec2Isabelle
  imports Main "HOL-Library.Word" "HOL-Library.Signed_Division" "HOL-Library.Monad_Syntax"
    "HOL-Library.Sublist"
begin

unbundle bit_operations_syntax

section \<open>Data model\<close>

type_synonym u8 = "8 word"
type_synonym u32 = "32 word"
type_synonym u64 = "64 word"

text \<open>\<^verbatim>\<open>enum device_type\<close> and \<^verbatim>\<open>struct device_info\<close> of ecpprog.c. The name is a
  \<^verbatim>\<open>const char *\<close> that starts as NULL, hence an option.\<close>

datatype device_type = TYPE_NONE | TYPE_ECP5 | TYPE_NX

record device_info =
  dev_name :: "string option"
  dev_id :: u32
  dev_type :: device_type

text \<open>Modelled from the spec: the sixteen TAP states of jtag.h, which is not among the
  sources (section 3 of the spec names them: Test-Logic-Reset, Run-Test/Idle and the two
  DR/IR columns Select, Capture, Shift, Exit1, Pause, Exit2, Update).\<close>

datatype tap_state =
    STATE_TEST_LOGIC_RESET | STATE_RUN_TEST_IDLE
  | STATE_SELECT_DR_SCAN | STATE_CAPTURE_DR | STATE_SHIFT_DR | STATE_EXIT1_DR
  | STATE_PAUSE_DR | STATE_EXIT2_DR | STATE_UPDATE_DR
  | STATE_SELECT_IR_SCAN | STATE_CAPTURE_IR | STATE_SHIFT_IR | STATE_EXIT1_IR
  | STATE_PAUSE_IR | STATE_EXIT2_IR | STATE_UPDATE_IR

text \<open>The lines of output that report device data. Progress lines and the dumps of
  verbose mode have no effect on the device or on control flow and are not recorded.\<close>

datatype message =
    Msg_idcode u32 string
  | Msg_idcode_no_match u32
  | Msg_ecp5_status u32
  | Msg_nx_status u64
  | Msg_flash_id "u8 list"
  | Msg_protection_failed u8
  | Msg_found_difference
  | Msg_verify_ok
  | Msg_bye

text \<open>What the program does to the outside world, in order: the calls into the JTAG
  module (jtag.c, not among the sources), the sleeps and the reports.\<close>

datatype event =
    Jtag_init int "string option" int
  | Jtag_go_to_state tap_state
  | Jtag_tap_shift "u8 list" nat bool
  | Jtag_wait_time nat
  | Jtag_error int
  | Jtag_deinit
  | Usleep nat
  | Qprintf message

text \<open>The process state: the globals \<^verbatim>\<open>verbose\<close> and \<^verbatim>\<open>connected_device\<close> of
  ecpprog.c, the current TAP state kept by the JTAG module, the trace of events so far, and
  the device: \<open>tdo st n\<close> is the byte string the chain returns on TDO during shift number
  \<open>n\<close> of the run, \<open>shifts st\<close> counts the shifts already made. \<open>out_file\<close> is what
  read mode has written to its output file.\<close>

record state =
  verbose :: bool
  connected_device :: device_info
  tap :: tap_state
  trace :: "event list"
  shifts :: nat
  tdo :: "nat \<Rightarrow> u8 list"
  out_file :: "u8 list"

definition emit :: "event \<Rightarrow> state \<Rightarrow> state" where
  "emit e st = st\<lparr>trace := trace st @ [e]\<rparr>"

definition qprintf :: "message \<Rightarrow> state \<Rightarrow> state" where
  "qprintf m st = emit (Qprintf m) st"

definition usleep :: "nat \<Rightarrow> state \<Rightarrow> state" where
  "usleep us st = emit (Usleep us) st"

section \<open>The JTAG module\<close>

text \<open>Modelled from the spec: the TAP transition taken on one TCK with the given TMS
  (jtag.c is not among the sources; the spec prescribes the canonical IEEE-1149.1 graph).\<close>

fun tap_next :: "bool \<Rightarrow> tap_state \<Rightarrow> tap_state" where
  "tap_next True STATE_TEST_LOGIC_RESET = STATE_TEST_LOGIC_RESET"
| "tap_next False STATE_TEST_LOGIC_RESET = STATE_RUN_TEST_IDLE"
| "tap_next True STATE_RUN_TEST_IDLE = STATE_SELECT_DR_SCAN"
| "tap_next False STATE_RUN_TEST_IDLE = STATE_RUN_TEST_IDLE"
| "tap_next True STATE_SELECT_DR_SCAN = STATE_SELECT_IR_SCAN"
| "tap_next False STATE_SELECT_DR_SCAN = STATE_CAPTURE_DR"
| "tap_next True STATE_CAPTURE_DR = STATE_EXIT1_DR"
| "tap_next False STATE_CAPTURE_DR = STATE_SHIFT_DR"
| "tap_next True STATE_SHIFT_DR = STATE_EXIT1_DR"
| "tap_next False STATE_SHIFT_DR = STATE_SHIFT_DR"
| "tap_next True STATE_EXIT1_DR = STATE_UPDATE_DR"
| "tap_next False STATE_EXIT1_DR = STATE_PAUSE_DR"
| "tap_next True STATE_PAUSE_DR = STATE_EXIT2_DR"
| "tap_next False STATE_PAUSE_DR = STATE_PAUSE_DR"
| "tap_next True STATE_EXIT2_DR = STATE_UPDATE_DR"
| "tap_next False STATE_EXIT2_DR = STATE_SHIFT_DR"
| "tap_next True STATE_UPDATE_DR = STATE_SELECT_DR_SCAN"
| "tap_next False STATE_UPDATE_DR = STATE_RUN_TEST_IDLE"
| "tap_next True STATE_SELECT_IR_SCAN = STATE_TEST_LOGIC_RESET"
| "tap_next False STATE_SELECT_IR_SCAN = STATE_CAPTURE_IR"
| "tap_next True STATE_CAPTURE_IR = STATE_EXIT1_IR"
| "tap_next False STATE_CAPTURE_IR = STATE_SHIFT_IR"
| "tap_next True STATE_SHIFT_IR = STATE_EXIT1_IR"
| "tap_next False STATE_SHIFT_IR = STATE_SHIFT_IR"
| "tap_next True STATE_EXIT1_IR = STATE_UPDATE_IR"
| "tap_next False STATE_EXIT1_IR = STATE_PAUSE_IR"
| "tap_next True STATE_PAUSE_IR = STATE_EXIT2_IR"
| "tap_next False STATE_PAUSE_IR = STATE_PAUSE_IR"
| "tap_next True STATE_EXIT2_IR = STATE_UPDATE_IR"
| "tap_next False STATE_EXIT2_IR = STATE_SHIFT_IR"
| "tap_next True STATE_UPDATE_IR = STATE_SELECT_DR_SCAN"
| "tap_next False STATE_UPDATE_IR = STATE_RUN_TEST_IDLE"

text \<open>Modelled from the spec: \<^verbatim>\<open>jtag_init\<close> of jtag.c (not among the sources). The
  transport is opened and the tracked state starts as Test-Logic-Reset.\<close>

definition jtag_init :: "int \<Rightarrow> string option \<Rightarrow> int \<Rightarrow> state \<Rightarrow> state" where
  "jtag_init ifnum devstr clkdiv st =
     (emit (Jtag_init ifnum devstr clkdiv) st)\<lparr>tap := STATE_TEST_LOGIC_RESET\<rparr>"

text \<open>Modelled from the spec: \<^verbatim>\<open>jtag_deinit\<close> of jtag.c (not among the sources).\<close>

definition jtag_deinit :: "state \<Rightarrow> state" where
  "jtag_deinit st = emit Jtag_deinit st"

text \<open>Modelled from the spec: \<^verbatim>\<open>jtag_current_state\<close> of jtag.c (not among the
  sources), the one mutable field of the TAP driver.\<close>

definition jtag_current_state :: "state \<Rightarrow> tap_state" where
  "jtag_current_state st = tap st"

text \<open>Modelled from the spec: \<^verbatim>\<open>jtag_go_to_state\<close> of jtag.c (not among the sources).
  The TMS sequence it emits is the driver's business; the caller sees the request and the
  new current state.\<close>

definition jtag_go_to_state :: "tap_state \<Rightarrow> state \<Rightarrow> state" where
  "jtag_go_to_state target st = (emit (Jtag_go_to_state target) st)\<lparr>tap := target\<rparr>"

text \<open>Modelled from the spec: \<^verbatim>\<open>jtag_wait_time\<close> of jtag.c (not among the sources),
  an idle pause of the given number of TCK cycles.\<close>

definition jtag_wait_time :: "nat \<Rightarrow> state \<Rightarrow> state" where
  "jtag_wait_time n st = emit (Jtag_wait_time n) st"

text \<open>The bytes captured from TDO by a shift of \<open>bits\<close> bits: as many bytes as the bits
  need, missing ones read as zero, and the unused high bits of the last byte zero.\<close>

definition tdo_bytes :: "nat \<Rightarrow> u8 list \<Rightarrow> u8 list" where
  "tdo_bytes bits resp =
     (let n = (bits + 7) div 8;
          bs = take n (resp @ replicate n 0)
      in if bits mod 8 = 0 then bs
         else butlast bs @ [last bs AND mask (bits mod 8)])"

text \<open>Modelled from the spec: \<^verbatim>\<open>jtag_tap_shift(input, output, data_bits, must_end)\<close>
  of jtag.c (not among the sources), always called with \<open>output = input\<close>. It sends
  \<open>data_bits\<close> bits of the buffer, stores the captured bits over the head of the buffer,
  and with \<open>must_end\<close> raises TMS on the last bit, which moves the TAP one step.\<close>

definition jtag_tap_shift :: "u8 list \<Rightarrow> nat \<Rightarrow> bool \<Rightarrow> state \<Rightarrow> u8 list \<times> state" where
  "jtag_tap_shift data data_bits must_end st =
     (let n = (data_bits + 7) div 8
      in (tdo_bytes data_bits (tdo st (shifts st)) @ drop n data,
          st\<lparr>trace := trace st @ [Jtag_tap_shift (take n data) data_bits must_end],
             shifts := Suc (shifts st),
             tap := (if must_end then tap_next True (tap st) else tap st)\<rparr>))"

section \<open>Vendor JTAG commands\<close>

text \<open>Modelled from the spec: the instruction codes of lattice_cmds.h, which is not among
  the sources (section 4.E of the spec lists them).\<close>

definition READ_ID :: u8 where "READ_ID = 0xE0"
definition LSC_READ_STATUS :: u8 where "LSC_READ_STATUS = 0x3C"
definition ISC_ENABLE :: u8 where "ISC_ENABLE = 0xC6"
definition ISC_DISABLE :: u8 where "ISC_DISABLE = 0x26"
definition ISC_ERASE :: u8 where "ISC_ERASE = 0x0E"
definition LSC_RESET_CRC :: u8 where "LSC_RESET_CRC = 0x3B"
definition LSC_BITSTREAM_BURST :: u8 where "LSC_BITSTREAM_BURST = 0x7A"
definition LSC_REFRESH :: u8 where "LSC_REFRESH = 0x79"

text \<open>The two tables \<^verbatim>\<open>ecp_devices\<close> and \<^verbatim>\<open>nx_devices\<close> of lattice_cmds.h are not
  among the sources either; they are parameters: lists of (device name, device id).\<close>

type_synonym device_table = "(string \<times> u32) list"

record tables =
  ecp_devices :: device_table
  nx_devices :: device_table

text \<open>The search loop of \<^verbatim>\<open>print_idcode\<close>: the first entry with the given id.\<close>

fun find_device :: "device_table \<Rightarrow> u32 \<Rightarrow> string option" where
  "find_device [] idcode = None"
| "find_device ((device_name, device_id) # rest) idcode =
     (if idcode = device_id then Some device_name else find_device rest idcode)"

definition print_idcode :: "tables \<Rightarrow> u32 \<Rightarrow> state \<Rightarrow> state" where
  "print_idcode tabs idcode st0 =
     (let st = st0\<lparr>connected_device := (connected_device st0)\<lparr>dev_id := idcode\<rparr>\<rparr>
      in case find_device (ecp_devices tabs) idcode of
           Some n \<Rightarrow>
             qprintf (Msg_idcode idcode n)
               (st\<lparr>connected_device :=
                     (connected_device st)\<lparr>dev_name := Some n, dev_type := TYPE_ECP5\<rparr>\<rparr>)
         | None \<Rightarrow>
            (case find_device (nx_devices tabs) idcode of
               Some n \<Rightarrow>
                 qprintf (Msg_idcode idcode n)
                   (st\<lparr>connected_device :=
                         (connected_device st)\<lparr>dev_name := Some n, dev_type := TYPE_NX\<rparr>\<rparr>)
             | None \<Rightarrow> qprintf (Msg_idcode_no_match idcode) st))"

text \<open>The loop \<^verbatim>\<open>for (i = 0; i < 4; i++) idcode = data[i] << 24 | idcode >> 8\<close> on a
  \<^verbatim>\<open>uint32_t\<close>, over the first bytes of the buffer. The byte is promoted to \<^verbatim>\<open>int\<close>
  before the shift; the bits that result are those of the 32-bit word, also when the top bit
  of the byte is set.\<close>

fun format32 :: "u8 list \<Rightarrow> u32 \<Rightarrow> u32" where
  "format32 [] acc = acc"
| "format32 (b # bs) acc = format32 bs (push_bit 24 (ucast b) OR drop_bit 8 acc)"

text \<open>The same loop of the NX status read, on a \<^verbatim>\<open>uint64_t\<close> and eight bytes.\<close>

fun format64 :: "u8 list \<Rightarrow> u64 \<Rightarrow> u64" where
  "format64 [] acc = acc"
| "format64 (b # bs) acc = format64 bs (push_bit 56 (ucast b) OR drop_bit 8 acc)"

definition read_idcode :: "tables \<Rightarrow> state \<Rightarrow> state" where
  "read_idcode tabs st0 =
     (let data = [READ_ID, 0, 0, 0];
          st = jtag_go_to_state STATE_SHIFT_IR st0;
          (data, st) = jtag_tap_shift data 8 True st;
          data = data[0 := 0];
          st = jtag_go_to_state STATE_SHIFT_DR st;
          (data, st) = jtag_tap_shift data 32 True st;
          idcode = format32 (take 4 data) 0
      in print_idcode tabs idcode st)"

definition print_ecp5_status_register :: "u32 \<Rightarrow> state \<Rightarrow> state" where
  "print_ecp5_status_register status st = qprintf (Msg_ecp5_status status) st"

definition print_nx_status_register :: "u64 \<Rightarrow> state \<Rightarrow> state" where
  "print_nx_status_register status st = qprintf (Msg_nx_status status) st"

definition read_status_register :: "state \<Rightarrow> state" where
  "read_status_register st0 =
     (let data = [LSC_READ_STATUS, 0, 0, 0, 0, 0, 0, 0];
          st = jtag_go_to_state STATE_SHIFT_IR st0;
          (data, st) = jtag_tap_shift data 8 True st;
          data = data[0 := 0];
          st = jtag_go_to_state STATE_SHIFT_DR st
      in if dev_type (connected_device st) = TYPE_ECP5 then
           (let (data, st) = jtag_tap_shift data 32 True st;
                status = format32 (take 4 data) 0
            in print_ecp5_status_register status st)
         else if dev_type (connected_device st) = TYPE_NX then
           (let (data, st) = jtag_tap_shift data 64 True st;
                status = format64 (take 8 data) 0
            in print_nx_status_register status st)
         else st)"


definition enter_spi_background_mode :: "state \<Rightarrow> state" where
  "enter_spi_background_mode st0 =
     (let data = [0x3A, 0, 0, 0];
          st = jtag_go_to_state STATE_SHIFT_IR st0;
          (data, st) = jtag_tap_shift data 8 True st;
          data = data[0 := 0xFE];
          data = data[1 := 0x68];
          st = jtag_go_to_state STATE_SHIFT_DR st;
          (data, st) = jtag_tap_shift data 16 True st
      in jtag_go_to_state STATE_RUN_TEST_IDLE st)"

definition ecp_jtag_cmd :: "u8 \<Rightarrow> state \<Rightarrow> state" where
  "ecp_jtag_cmd cmd st0 =
     (let data = [cmd];
          st = jtag_go_to_state STATE_SHIFT_IR st0;
          (data, st) = jtag_tap_shift data 8 True st;
          st = jtag_go_to_state STATE_RUN_TEST_IDLE st
      in jtag_wait_time 32 st)"

definition ecp_jtag_cmd8 :: "u8 \<Rightarrow> u8 \<Rightarrow> state \<Rightarrow> state" where
  "ecp_jtag_cmd8 cmd param st0 =
     (let data = [cmd];
          st = jtag_go_to_state STATE_SHIFT_IR st0;
          (data, st) = jtag_tap_shift data 8 True st;
          data = data[0 := param];
          st = jtag_go_to_state STATE_SHIFT_DR st;
          (data, st) = jtag_tap_shift data 8 True st;
          st = jtag_go_to_state STATE_RUN_TEST_IDLE st
      in jtag_wait_time 32 st)"

section \<open>SPI over JTAG\<close>

definition bit_reverse :: "u8 \<Rightarrow> u8" where
  "bit_reverse in8 =
     (if in8 AND 0x01 \<noteq> 0 then 0x80 else 0x00) OR
     (if in8 AND 0x02 \<noteq> 0 then 0x40 else 0x00) OR
     (if in8 AND 0x04 \<noteq> 0 then 0x20 else 0x00) OR
     (if in8 AND 0x08 \<noteq> 0 then 0x10 else 0x00) OR
     (if in8 AND 0x10 \<noteq> 0 then 0x08 else 0x00) OR
     (if in8 AND 0x20 \<noteq> 0 then 0x04 else 0x00) OR
     (if in8 AND 0x40 \<noteq> 0 then 0x02 else 0x00) OR
     (if in8 AND 0x80 \<noteq> 0 then 0x01 else 0x00)"

text \<open>The loop \<^verbatim>\<open>for (i = 0; i < len; i++) data[i] = bit_reverse(data[i])\<close>.\<close>

definition reverse_bytes :: "nat \<Rightarrow> u8 list \<Rightarrow> u8 list" where
  "reverse_bytes len data = map bit_reverse (take len data) @ drop len data"

definition xfer_spi :: "u8 list \<Rightarrow> nat \<Rightarrow> state \<Rightarrow> u8 list \<times> state" where
  "xfer_spi data0 len st0 =
     (let data = reverse_bytes len data0;
          st = (if jtag_current_state st0 \<noteq> STATE_SHIFT_DR
                then jtag_go_to_state STATE_SHIFT_DR st0 else st0);
          (data, st) = jtag_tap_shift data (len * 8) True st
      in (reverse_bytes len data, st))"

definition send_spi :: "u8 list \<Rightarrow> nat \<Rightarrow> state \<Rightarrow> u8 list \<times> state" where
  "send_spi data0 len st0 =
     (let data = reverse_bytes len data0;
          st = jtag_go_to_state STATE_SHIFT_DR st0;
          (data, st) = jtag_tap_shift data (len * 8) False st
      in (reverse_bytes len data, st))"

section \<open>Flash commands\<close>

text \<open>The members of \<^verbatim>\<open>enum flash_cmd\<close> that the program uses.\<close>

definition FC_WE :: u8 where "FC_WE = 0x06"
definition FC_JEDECID :: u8 where "FC_JEDECID = 0x9F"
definition FC_RD :: u8 where "FC_RD = 0x03"
definition FC_PP :: u8 where "FC_PP = 0x02"
definition FC_SE :: u8 where "FC_SE = 0x20"
definition FC_BE32 :: u8 where "FC_BE32 = 0x52"
definition FC_BE64 :: u8 where "FC_BE64 = 0xD8"
definition FC_CE :: u8 where "FC_CE = 0xC7"
definition FC_RSR1 :: u8 where "FC_RSR1 = 0x05"
definition FC_WSR1 :: u8 where "FC_WSR1 = 0x01"
definition FC_RSR2 :: u8 where "FC_RSR2 = 0x35"

text \<open>\<^verbatim>\<open>(uint8_t)(addr >> k)\<close> on an \<^verbatim>\<open>int\<close>: the shift is arithmetic and the cast keeps
  the low eight bits.\<close>

definition addr_byte :: "nat \<Rightarrow> int \<Rightarrow> u8" where
  "addr_byte k addr = word_of_int (drop_bit k addr)"

definition flash_read_id :: "state \<Rightarrow> state" where
  "flash_read_id st0 =
     (let data = FC_JEDECID # replicate 259 0;
          len = 4;
          (data, st) = xfer_spi data len st0
      in qprintf (Msg_flash_id (take (len - 1) (drop 1 data))) st)"

definition flash_reset :: "state \<Rightarrow> state" where
  "flash_reset st0 =
     (let data = [0xff, 0xff, 0xff, 0xff, 0xff, 0xff, 0xff, 0xff];
          st = jtag_go_to_state STATE_SHIFT_DR st0;
          (data, st) = jtag_tap_shift data 64 True st;
          st = jtag_go_to_state STATE_SHIFT_DR st;
          (data, st) = jtag_tap_shift data 2 True st;
          st = jtag_go_to_state STATE_SHIFT_DR st;
          (data, st) = jtag_tap_shift data 8 True st
      in st)"

definition read_status_1 :: "state \<Rightarrow> u8 \<times> state" where
  "read_status_1 st0 =
     (let (data, st) = xfer_spi [FC_RSR1, 0] 2 st0 in (data ! 1, st))"

definition read_status_2 :: "state \<Rightarrow> u8 \<times> state" where
  "read_status_2 st0 =
     (let (data, st) = xfer_spi [FC_RSR2, 0] 2 st0 in (data ! 1, st))"

definition flash_read_status :: "state \<Rightarrow> u8 \<times> state" where
  "flash_read_status st0 =
     (let (ret, st) = read_status_1 st0;
          (r2, st) = read_status_2 st
      in (ret, st))"

definition flash_write_enable :: "state \<Rightarrow> state" where
  "flash_write_enable st0 =
     (let st = (if verbose st0 then snd (flash_read_status st0) else st0);
          (data, st) = xfer_spi [FC_WE] 1 st
      in if verbose st then snd (flash_read_status st) else st)"

definition flash_bulk_erase :: "state \<Rightarrow> state" where
  "flash_bulk_erase st = snd (xfer_spi [FC_CE] 1 st)"

definition flash_4kB_sector_erase :: "int \<Rightarrow> state \<Rightarrow> state" where
  "flash_4kB_sector_erase addr st =
     snd (xfer_spi [FC_SE, addr_byte 16 addr, addr_byte 8 addr, addr_byte 0 addr] 4 st)"

definition flash_32kB_sector_erase :: "int \<Rightarrow> state \<Rightarrow> state" where
  "flash_32kB_sector_erase addr st =
     snd (xfer_spi [FC_BE32, addr_byte 16 addr, addr_byte 8 addr, addr_byte 0 addr] 4 st)"

definition flash_64kB_sector_erase :: "int \<Rightarrow> state \<Rightarrow> state" where
  "flash_64kB_sector_erase addr st =
     snd (xfer_spi [FC_BE64, addr_byte 16 addr, addr_byte 8 addr, addr_byte 0 addr] 4 st)"

text \<open>\<^verbatim>\<open>flash_prog(addr, data, n)\<close>: the command with \<^verbatim>\<open>send_spi\<close>, which leaves the
  TAP in Shift-DR, then the \<open>n\<close> data bytes with \<^verbatim>\<open>xfer_spi\<close>, which ends the
  transaction. The buffer comes back overwritten with what the flash returned.\<close>

definition flash_prog :: "int \<Rightarrow> u8 list \<Rightarrow> nat \<Rightarrow> state \<Rightarrow> u8 list \<times> state" where
  "flash_prog addr data n st0 =
     (let (command, st) = send_spi [FC_PP, addr_byte 16 addr, addr_byte 8 addr, addr_byte 0 addr] 4 st0
      in xfer_spi data n st)"

definition flash_start_read :: "int \<Rightarrow> state \<Rightarrow> state" where
  "flash_start_read addr st =
     snd (send_spi [FC_RD, addr_byte 16 addr, addr_byte 8 addr, addr_byte 0 addr] 4 st)"

text \<open>\<^verbatim>\<open>flash_continue_read(data, n)\<close>: \<^verbatim>\<open>memset(data, 0, n)\<close>, then \<^verbatim>\<open>send_spi\<close>. Only the
  first \<open>n\<close> bytes of the caller's buffer are written and later read, so the buffer is
  modelled by those \<open>n\<close> bytes.\<close>

definition flash_continue_read :: "nat \<Rightarrow> state \<Rightarrow> u8 list \<times> state" where
  "flash_continue_read n st = send_spi (replicate n 0) n st"

text \<open>\<^verbatim>\<open>flash_wait\<close>: the \<^verbatim>\<open>while (1)\<close> loop with its local \<^verbatim>\<open>count\<close>. The loop has no
  bound, so the function is partial: \<open>None\<close> is the wait that never returns.\<close>

partial_function (option) flash_wait_loop :: "int \<Rightarrow> state \<Rightarrow> state option" where
  "flash_wait_loop count st0 =
     (let (data, st) = xfer_spi [FC_RSR1, 0] 2 st0
      in if (data ! 1) AND 0x01 = 0 then
           (if count < 2 then flash_wait_loop (count + 1) (usleep 1000 st)
            else Some st)
         else flash_wait_loop 0 (usleep 1000 st))"

definition flash_wait :: "state \<Rightarrow> state option" where
  "flash_wait st = flash_wait_loop 0 st"

definition flash_disable_protection :: "state \<Rightarrow> state option" where
  "flash_disable_protection st0 =
     (let (data, st) = xfer_spi [FC_WSR1, 0x00] 2 st0
      in case flash_wait st of
           None \<Rightarrow> None
         | Some st \<Rightarrow>
             (let data = data[0 := FC_RSR1];
                  (data, st) = xfer_spi data 2 st
              in Some (if data ! 1 \<noteq> 0x00 then qprintf (Msg_protection_failed (data ! 1)) st
                       else st)))"


section \<open>Orchestration\<close>

text \<open>The command line is parsed before the hardware is touched; \<^verbatim>\<open>ecpprog_main\<close> is
  modelled from the call of \<^verbatim>\<open>jtag_init\<close> on, with the parsed values as a record.
  \<open>file_size\<close> is the \<^verbatim>\<open>long\<close> set while the file is opened. The \<^verbatim>\<open>int\<close> and
  \<^verbatim>\<open>long\<close> values are integers without a bound: signed overflow is undefined in C, so the
  model speaks for the runs in which every value fits its type, and the one narrowing
  conversion, of \<^verbatim>\<open>end_addr\<close>, is written out.\<close>

record options =
  read_size :: int
  erase_block_size :: int
  rw_offset :: int
  clkdiv :: int
  reinitialize :: bool
  read_mode :: bool
  check_mode :: bool
  erase_mode :: bool
  bulk_erase :: bool
  dont_erase :: bool
  prog_sram :: bool
  test_mode :: bool
  disable_protect :: bool
  disable_verify :: bool
  devstr :: "string option"
  ifnum :: int
  file_size :: int

text \<open>The input file is the list of its bytes that are still unread: \<^verbatim>\<open>fread\<close> of \<open>n\<close>
  bytes takes \<open>take n f\<close> and leaves \<open>drop n f\<close>. \<^verbatim>\<open>fwrite\<close> appends to the output
  file.\<close>

definition fwrite :: "u8 list \<Rightarrow> state \<Rightarrow> state" where
  "fwrite bytes st = st\<lparr>out_file := out_file st @ bytes\<rparr>"

text \<open>Modelled from the spec: \<^verbatim>\<open>jtag_error\<close> of jtag.c, which is not among the sources.
  The spec has a verify mismatch leave the process with code 3 (sections 4.F, 7 and 8-S4), so
  the call ends the run with the given status.\<close>

definition jtag_error :: "int \<Rightarrow> state \<Rightarrow> int \<times> state" where
  "jtag_error status st = (status, emit (Jtag_error status) st)"

text \<open>The tail of \<^verbatim>\<open>ecpprog_main\<close>: the optional refresh, the farewell, \<^verbatim>\<open>jtag_deinit\<close>
  and \<^verbatim>\<open>return 0\<close>.\<close>

definition main_exit :: "options \<Rightarrow> state \<Rightarrow> int \<times> state" where
  "main_exit opts st0 =
     (let st = (if reinitialize opts then ecp_jtag_cmd LSC_REFRESH st0 else st0);
          st = qprintf Msg_bye st;
          st = jtag_deinit st
      in (0, st))"

text \<open>The branch \<^verbatim>\<open>if (test_mode)\<close>.\<close>

definition test_pass :: "state \<Rightarrow> state" where
  "test_pass st0 =
     (let st = ecp_jtag_cmd8 ISC_ENABLE 0 st0;
          st = usleep 10000 st;
          st = ecp_jtag_cmd8 ISC_ERASE 0 st;
          st = usleep 10000 st;
          st = ecp_jtag_cmd ISC_DISABLE st;
          st = enter_spi_background_mode st;
          st = flash_reset st;
          st = flash_read_id st
      in snd (flash_read_status st))"

text \<open>The \<^verbatim>\<open>while (1)\<close> loop of the SRAM branch: 16 KiB at a time until \<^verbatim>\<open>fread\<close>
  returns nothing.\<close>

function sram_loop :: "u8 list \<Rightarrow> state \<Rightarrow> state" where
  "sram_loop f st0 =
     (let len = 16 * 1024;
          buffer = take len f;
          rc = int (length buffer)
      in if rc \<le> 0 then st0
         else (let buffer = reverse_bytes (nat rc) buffer;
                   st = jtag_go_to_state STATE_CAPTURE_DR st0;
                   (buffer, st) = jtag_tap_shift buffer (nat (rc * 8)) False st
               in sram_loop (drop len f) st))"
  by pat_completeness auto
termination
  by (relation "measure (\<lambda>(f, st). length f)") auto

declare sram_loop.simps [simp del]

text \<open>The branch \<^verbatim>\<open>else if (prog_sram)\<close>.\<close>

definition sram_pass :: "u8 list \<Rightarrow> state \<Rightarrow> state" where
  "sram_pass f st0 =
     (let st = ecp_jtag_cmd8 ISC_ENABLE 0 st0;
          st = ecp_jtag_cmd8 ISC_ERASE 0 st;
          st = ecp_jtag_cmd8 LSC_RESET_CRC 0 st;
          st = read_status_register st;
          st = ecp_jtag_cmd LSC_BITSTREAM_BURST st;
          st = sram_loop f st;
          st = ecp_jtag_cmd ISC_DISABLE st
      in read_status_register st)"

text \<open>The erase range: \<^verbatim>\<open>block_size\<close>, \<^verbatim>\<open>block_mask\<close>, \<^verbatim>\<open>begin_addr\<close> and \<^verbatim>\<open>end_addr\<close>.
  The sum for \<^verbatim>\<open>end_addr\<close> is computed in \<^verbatim>\<open>long\<close> and stored in an \<^verbatim>\<open>int\<close>.\<close>

definition block_size :: "int \<Rightarrow> int" where
  "block_size ebs = push_bit 10 ebs"

definition block_mask :: "int \<Rightarrow> int" where
  "block_mask ebs = block_size ebs - 1"

definition begin_addr :: "int \<Rightarrow> int \<Rightarrow> int" where
  "begin_addr ebs offset = offset AND NOT (block_mask ebs)"

definition end_addr :: "int \<Rightarrow> int \<Rightarrow> int \<Rightarrow> int" where
  "end_addr ebs offset fsize =
     signed_take_bit 31 ((offset + fsize + block_mask ebs) AND NOT (block_mask ebs))"

text \<open>The \<^verbatim>\<open>switch (erase_block_size)\<close> of the erase loop; it has no default case.\<close>

definition erase_block :: "int \<Rightarrow> int \<Rightarrow> state \<Rightarrow> state" where
  "erase_block ebs addr st =
     (if ebs = 4 then flash_4kB_sector_erase addr st
      else if ebs = 32 then flash_32kB_sector_erase addr st
      else if ebs = 64 then flash_64kB_sector_erase addr st
      else st)"

text \<open>The loop \<^verbatim>\<open>for (addr = begin_addr; addr < end_addr; addr += block_size)\<close>.\<close>

partial_function (option) erase_loop :: "int \<Rightarrow> int \<Rightarrow> int \<Rightarrow> state \<Rightarrow> state option" where
  "erase_loop ebs e addr st0 =
     (if addr < e then
        (let st = flash_write_enable st0;
             st = erase_block ebs addr st;
             st = (if verbose st then snd (flash_read_status st) else st)
         in do { st \<leftarrow> flash_wait st; erase_loop ebs e (addr + block_size ebs) st })
      else Some st0)"

definition erase_pass :: "options \<Rightarrow> state \<Rightarrow> state option" where
  "erase_pass opts st =
     erase_loop (erase_block_size opts)
       (end_addr (erase_block_size opts) (rw_offset opts) (file_size opts))
       (begin_addr (erase_block_size opts) (rw_offset opts)) st"

text \<open>The programming loop \<^verbatim>\<open>for (int rc, addr = 0; true; addr += rc)\<close>. The remainder
  is C's \<^verbatim>\<open>%\<close>, which truncates towards zero.\<close>

function prog_loop :: "int \<Rightarrow> int \<Rightarrow> u8 list \<Rightarrow> state \<Rightarrow> state option" where
  "prog_loop offset addr f st0 =
     (let page_size = 256 - (offset + addr) smod 256;
          buffer = take (nat page_size) f;
          rc = int (length buffer)
      in if rc \<le> 0 then Some st0
         else (let st = flash_write_enable st0;
                   (buffer, st) = flash_prog (offset + addr) buffer (nat rc) st
               in do { st \<leftarrow> flash_wait st;
                       prog_loop offset (addr + rc) (drop (nat page_size) f) st }))"
  by pat_completeness auto
termination
  by (relation "measure (\<lambda>(offset, addr, f, st). length f)") auto

declare prog_loop.simps [simp del]

text \<open>The read loop \<^verbatim>\<open>for (addr = 0; addr < read_size; addr += 4096)\<close>.\<close>

function read_loop :: "int \<Rightarrow> int \<Rightarrow> state \<Rightarrow> state" where
  "read_loop rsize addr st0 =
     (if addr < rsize then
        (let (buffer, st) = flash_continue_read 4096 st0;
             st = fwrite (take (nat (if rsize - addr > 4096 then 4096 else rsize - addr)) buffer) st
         in read_loop rsize (addr + 4096) st)
      else st0)"
  by pat_completeness auto
termination
  by (relation "measure (\<lambda>(rsize, addr, st). nat (rsize - addr))") auto

declare read_loop.simps [simp del]

text \<open>The verify loop \<^verbatim>\<open>for (addr = 0; addr < file_size; addr += 4096)\<close>. \<open>Inl\<close> is the
  process ended by \<^verbatim>\<open>jtag_error\<close>, \<open>Inr\<close> the loop left normally.\<close>

function verify_loop :: "int \<Rightarrow> int \<Rightarrow> u8 list \<Rightarrow> state \<Rightarrow> (int \<times> state) + state" where
  "verify_loop fsize addr f st0 =
     (if addr < fsize then
        (let buffer_file = take 4096 f;
             rc = int (length buffer_file)
         in if rc \<le> 0 then Inr st0
            else (let (buffer_flash, st) = flash_continue_read (nat rc) st0
                  in if take (nat rc) buffer_file \<noteq> take (nat rc) buffer_flash
                     then Inl (jtag_error 3 (qprintf Msg_found_difference st))
                     else verify_loop fsize (addr + 4096) (drop 4096 f) st))
      else Inr st0)"
  by pat_completeness auto
termination
  by (relation "measure (\<lambda>(fsize, addr, f, st). length f)") auto

declare verify_loop.simps [simp del]

text \<open>The branch \<^verbatim>\<open>else /* program flash */\<close>, in the three sections its comments
  mark. First "Reset": the reset that releases the SPI pins, SPI background mode, the flash
  reset and the flash id.\<close>

definition flash_prologue :: "state \<Rightarrow> state" where
  "flash_prologue st =
     flash_read_id (flash_reset (enter_spi_background_mode
       (ecp_jtag_cmd8 ISC_DISABLE 0 (ecp_jtag_cmd8 ISC_ERASE 0 (ecp_jtag_cmd8 ISC_ENABLE 0 st)))))"

text \<open>Then "Program", under \<^verbatim>\<open>if (!read_mode && !check_mode)\<close>: the optional removal of
  the protection, the erase, and the programming loop.\<close>

definition program_section :: "options \<Rightarrow> u8 list \<Rightarrow> state \<Rightarrow> state option" where
  "program_section opts f st0 =
     (if \<not> read_mode opts \<and> \<not> check_mode opts then do {
        st \<leftarrow> (if disable_protect opts
               then flash_disable_protection (flash_write_enable st0)
               else Some st0);
        st \<leftarrow> (if \<not> dont_erase opts then
                 (if bulk_erase opts
                  then flash_wait (flash_bulk_erase (flash_write_enable st))
                  else erase_pass opts st)
               else Some st);
        (if \<not> erase_mode opts then prog_loop (rw_offset opts) 0 f st else Some st)
      } else Some st0)"

text \<open>Then "Read/Verify", and the tail of \<^verbatim>\<open>ecpprog_main\<close>. In the verify pass the file
  is read again from its start.\<close>

definition verify_section :: "options \<Rightarrow> u8 list \<Rightarrow> state \<Rightarrow> int \<times> state" where
  "verify_section opts f st =
     (if read_mode opts then
        main_exit opts (read_loop (read_size opts) 0 (flash_start_read (rw_offset opts) st))
      else if \<not> erase_mode opts \<and> \<not> disable_verify opts then
        (case verify_loop (file_size opts) 0 f (flash_start_read (rw_offset opts) st) of
           Inl ended \<Rightarrow> ended
         | Inr st \<Rightarrow> main_exit opts (qprintf Msg_verify_ok st))
      else main_exit opts st)"

definition flash_pass :: "options \<Rightarrow> u8 list \<Rightarrow> state \<Rightarrow> (int \<times> state) option" where
  "flash_pass opts f st0 =
     do { st \<leftarrow> program_section opts f (flash_prologue st0);
          Some (verify_section opts f st) }"

text \<open>\<^verbatim>\<open>ecpprog_main\<close> from \<^verbatim>\<open>jtag_init\<close> to its end. The result is the exit status and
  the final state, or \<open>None\<close> when a flash wait never returns.\<close>

definition ecpprog_main :: "options \<Rightarrow> tables \<Rightarrow> u8 list \<Rightarrow> state \<Rightarrow> (int \<times> state) option" where
  "ecpprog_main opts tabs f st0 =
     (let st = jtag_init (ifnum opts) (devstr opts) (clkdiv opts) st0;
          st = read_idcode tabs st;
          st = read_status_register st
      in if test_mode opts then Some (main_exit opts (test_pass st))
         else if prog_sram opts then Some (main_exit opts (sram_pass f st))
         else flash_pass opts f st)"


section \<open>The MPSSE transport (mpsse.c)\<close>

text \<open>libftdi is outside the program. Each call is recorded, and its result is what
  the library answers: a return code and, for a call that delivers data, the bytes. The
  diagnostics that mpsse.c prints do not touch the transport and are left out.\<close>

datatype ftdi_interface = INTERFACE_A | INTERFACE_B | INTERFACE_C | INTERFACE_D

datatype ftdi_mpsse_mode = BITMODE_MPSSE

datatype ftdi_call =
    Ftdi_init
  | Ftdi_set_interface ftdi_interface
  | Ftdi_usb_open_string string
  | Ftdi_usb_open nat nat
  | Ftdi_usb_reset
  | Ftdi_usb_purge_buffers
  | Ftdi_get_latency_timer
  | Ftdi_set_latency_timer u8
  | Ftdi_set_bitmode u8 ftdi_mpsse_mode
  | Ftdi_read_data int
  | Ftdi_write_data "u8 list"
  | Ftdi_disable_bitbang
  | Ftdi_usb_close
  | Ftdi_deinit
  | Mpsse_usleep nat

record ftdi_reply =
  rc :: int
  rx :: "u8 list"

text \<open>The globals of mpsse.c, the calls made so far, and the library: \<open>ftdi_replies st n\<close>
  is the answer to call number \<open>n\<close>.\<close>

record mpsse_state =
  mpsse_ftdic_open :: bool
  mpsse_ftdic_latency_set :: bool
  mpsse_ftdi_latency :: u8
  mpsse_error_last :: int
  ftdi_calls :: "ftdi_call list"
  ftdi_replies :: "nat \<Rightarrow> ftdi_reply"

text \<open>The command bytes \<^verbatim>\<open>MC_TCK_X5\<close>, \<^verbatim>\<open>MC_SET_CLK_DIV\<close> and \<^verbatim>\<open>MC_SETB_LOW\<close> are defined in
  mpsse.h, which is not among the sources; they are parameters.\<close>

record mpsse_commands =
  MC_TCK_X5 :: u8
  MC_SET_CLK_DIV :: u8
  MC_SETB_LOW :: u8

definition ftdi :: "ftdi_call \<Rightarrow> mpsse_state \<Rightarrow> ftdi_reply \<times> mpsse_state" where
  "ftdi c st = (ftdi_replies st (length (ftdi_calls st)), st\<lparr>ftdi_calls := ftdi_calls st @ [c]\<rparr>)"

text \<open>\<^verbatim>\<open>ftdi_read_data(&mpsse_ftdic, buf + at, size)\<close>: a negative code and nothing stored,
  or the count of bytes and those bytes stored from index \<open>at\<close> on.\<close>

definition ftdi_read_data :: "u8 list \<Rightarrow> nat \<Rightarrow> int \<Rightarrow> mpsse_state \<Rightarrow> int \<times> u8 list \<times> mpsse_state" where
  "ftdi_read_data buf at size_req st0 =
     (let (r, st) = ftdi (Ftdi_read_data size_req) st0;
          n = min (nat (rc r)) (nat size_req);
          got = take n (rx r @ replicate n 0)
      in if rc r < 0 then (rc r, buf, st)
         else (rc r, take at buf @ got @ drop (at + n) buf, st))"

definition ftdi_write_data :: "u8 list \<Rightarrow> mpsse_state \<Rightarrow> int \<times> mpsse_state" where
  "ftdi_write_data bytes st0 = (let (r, st) = ftdi (Ftdi_write_data bytes) st0 in (rc r, st))"

text \<open>\<^verbatim>\<open>mpsse_check_rx\<close>: the loop reads single bytes until a read returns no byte or
  an error, or until 33 bytes have come. \<^verbatim>\<open>cnt\<close> is a \<^verbatim>\<open>uint8_t\<close> that starts at 0 and
  never passes 33, so it does not wrap.\<close>

function mpsse_check_rx_loop :: "nat \<Rightarrow> mpsse_state \<Rightarrow> mpsse_state" where
  "mpsse_check_rx_loop cnt st0 =
     (let (r, data, st) = ftdi_read_data [0] 0 1 st0
      in if r \<le> 0 then st
         else if cnt + 1 > 32 then st
         else mpsse_check_rx_loop (cnt + 1) st)"
  by pat_completeness auto
termination
  by (relation "measure (\<lambda>(cnt, st). 32 - cnt)") auto

declare mpsse_check_rx_loop.simps [simp del]

definition mpsse_check_rx :: "mpsse_state \<Rightarrow> mpsse_state" where
  "mpsse_check_rx st = mpsse_check_rx_loop 0 st"

text \<open>\<^verbatim>\<open>ftdi_get_latency_timer(&mpsse_ftdic, &mpsse_ftdi_latency)\<close>: a negative code and
  nothing stored, or the latency the library reports stored in the global.\<close>

definition ftdi_get_latency_timer :: "mpsse_state \<Rightarrow> int \<times> mpsse_state" where
  "ftdi_get_latency_timer st0 =
     (let (r, st) = ftdi Ftdi_get_latency_timer st0
      in if rc r < 0 then (rc r, st)
         else (rc r, st\<lparr>mpsse_ftdi_latency := hd (rx r @ [0])\<rparr>))"

definition mpsse_error :: "int \<Rightarrow> mpsse_state \<Rightarrow> mpsse_state" where
  "mpsse_error status st0 =
     (let st = st0\<lparr>mpsse_error_last := status\<rparr>;
          st = (if mpsse_ftdic_open st then
                  (let st = (if mpsse_ftdic_latency_set st
                             then snd (ftdi (Ftdi_set_latency_timer (mpsse_ftdi_latency st)) st)
                             else st)
                   in snd (ftdi Ftdi_usb_close st))
                else st)
      in snd (ftdi Ftdi_deinit st))"

text \<open>\<^verbatim>\<open>mpsse_recv_byte\<close>: the loop has no bound, \<open>None\<close> is the receive that never
  returns.\<close>

partial_function (option) mpsse_recv_byte :: "mpsse_state \<Rightarrow> (u8 \<times> mpsse_state) option" where
  "mpsse_recv_byte st0 =
     (let (r, data, st) = ftdi_read_data [0] 0 1 st0
      in if r < 0 then Some (0, mpsse_error 2 st)
         else if r = 1 then Some (data ! 0, st)
         else mpsse_recv_byte (snd (ftdi (Mpsse_usleep 100) st)))"

definition mpsse_send_byte :: "u8 \<Rightarrow> mpsse_state \<Rightarrow> mpsse_state" where
  "mpsse_send_byte data st0 =
     (let (r, st) = ftdi_write_data [data] st0
      in if r \<noteq> 1 then mpsse_error 2 st else st)"

text \<open>The receive loop of \<^verbatim>\<open>mpsse_xfer\<close>, \<^verbatim>\<open>while (rx_len != receive_length)\<close>, with
  \<^verbatim>\<open>rx_len\<close> a \<^verbatim>\<open>uint16_t\<close>.\<close>

partial_function (option) mpsse_xfer_receive ::
    "nat \<Rightarrow> nat \<Rightarrow> u8 list \<Rightarrow> mpsse_state \<Rightarrow> (u8 list \<times> mpsse_state) option" where
  "mpsse_xfer_receive receive_length rx_len data_buffer st0 =
     (if rx_len \<noteq> receive_length then
        (let (r, data_buffer', st) =
               ftdi_read_data data_buffer rx_len (int receive_length - int rx_len) st0
         in if r < 0 then Some (data_buffer', mpsse_error 2 st)
            else mpsse_xfer_receive receive_length ((rx_len + nat r) mod 65536) data_buffer' st)
      else Some (data_buffer, st0))"

definition mpsse_xfer ::
    "u8 list \<Rightarrow> nat \<Rightarrow> nat \<Rightarrow> mpsse_state \<Rightarrow> (u8 list \<times> mpsse_state) option" where
  "mpsse_xfer data_buffer send_length receive_length st0 =
     (if mpsse_error_last st0 \<noteq> 0 then Some (data_buffer, st0)
      else
        (let (r, st) = (if send_length \<noteq> 0
                        then ftdi_write_data (take send_length data_buffer) st0
                        else (int send_length, st0))
         in if send_length \<noteq> 0 \<and> r \<noteq> int send_length then Some (data_buffer, mpsse_error 2 st)
            else if receive_length \<noteq> 0 then mpsse_xfer_receive receive_length 0 data_buffer st
            else Some (data_buffer, st)))"

text \<open>\<^verbatim>\<open>mpsse_init(ifnum, devstr, clkdiv)\<close>. The results of \<^verbatim>\<open>ftdi_init\<close> and
  \<^verbatim>\<open>ftdi_set_interface\<close> are not looked at; without a device string the second default
  device is tried only when the first cannot be opened. The bytes of the clock divider are
  \<^verbatim>\<open>(clkdiv-1) & 0xff\<close> and \<^verbatim>\<open>(clkdiv-1) >> 8\<close>, each passed as a \<^verbatim>\<open>uint8_t\<close>. The function
  returns 0 whatever becomes of the seven bytes it sends at the end.\<close>

definition mpsse_init ::
    "mpsse_commands \<Rightarrow> int \<Rightarrow> string option \<Rightarrow> int \<Rightarrow> mpsse_state \<Rightarrow> int \<times> mpsse_state" where
  "mpsse_init cmds ifnum' devstr' clkdiv' st0 =
     (let ftdi_ifnum = (if ifnum' = 0 then INTERFACE_A else if ifnum' = 1 then INTERFACE_B
                        else if ifnum' = 2 then INTERFACE_C else if ifnum' = 3 then INTERFACE_D
                        else INTERFACE_A);
          st = snd (ftdi Ftdi_init st0);
          st = snd (ftdi (Ftdi_set_interface ftdi_ifnum) st);
          (no_device, st) =
            (case devstr' of
               Some s \<Rightarrow> (let (r, st) = ftdi (Ftdi_usb_open_string s) st in (rc r \<noteq> 0, st))
             | None \<Rightarrow>
                 (let (r, st) = ftdi (Ftdi_usb_open 0x0403 0x6010) st
                  in if rc r \<noteq> 0
                     then (let (r, st) = ftdi (Ftdi_usb_open 0x0403 0x6014) st in (rc r \<noteq> 0, st))
                     else (False, st)))
      in if no_device then (- 1, mpsse_error 2 st)
         else
      (let st = st\<lparr>mpsse_ftdic_open := True\<rparr>;
           (r, st) = ftdi Ftdi_usb_reset st
       in if rc r \<noteq> 0 then (- 1, mpsse_error 2 st)
          else
      (let (r, st) = ftdi Ftdi_usb_purge_buffers st
       in if rc r \<noteq> 0 then (- 1, mpsse_error 2 st)
          else
      (let (r, st) = ftdi_get_latency_timer st
       in if r < 0 then (- 1, mpsse_error 2 st)
          else
      (let (r, st) = ftdi (Ftdi_set_latency_timer 1) st
       in if rc r < 0 then (- 1, mpsse_error 2 st)
          else
      (let st = st\<lparr>mpsse_ftdic_latency_set := True\<rparr>;
           (r, st) = ftdi (Ftdi_set_bitmode 0xff BITMODE_MPSSE) st
       in if rc r < 0 then (- 1, mpsse_error 2 st)
          else
      (let (r, st) = ftdi Ftdi_usb_purge_buffers st
       in if rc r \<noteq> 0 then (- 1, mpsse_error 2 st)
          else
      (let st = mpsse_send_byte (MC_TCK_X5 cmds) st;
           st = mpsse_send_byte (MC_SET_CLK_DIV cmds) st;
           st = mpsse_send_byte (word_of_int ((clkdiv' - 1) AND 0xff)) st;
           st = mpsse_send_byte (word_of_int (drop_bit 8 (clkdiv' - 1))) st;
           st = mpsse_send_byte (MC_SETB_LOW cmds) st;
           st = mpsse_send_byte 0x08 st;
           st = mpsse_send_byte 0x0B st
       in (0, st)))))))))"

definition mpsse_close :: "mpsse_state \<Rightarrow> mpsse_state" where
  "mpsse_close st0 =
     (let st = snd (ftdi (Ftdi_set_latency_timer (mpsse_ftdi_latency st0)) st0);
          st = snd (ftdi Ftdi_disable_bitbang st);
          st = snd (ftdi Ftdi_usb_close st)
      in snd (ftdi Ftdi_deinit st))"

section \<open>Example data\<close>

text \<open>A process at the start of \<^verbatim>\<open>ecpprog_main\<close>: not verbose, \<^verbatim>\<open>connected_device\<close>
  zero-initialised, nothing done yet, and a given device on the chain.\<close>

definition boot_state :: "(nat \<Rightarrow> u8 list) \<Rightarrow> state" where
  "boot_state dev =
     \<lparr>verbose = False,
      connected_device = \<lparr>dev_name = None, dev_id = 0, dev_type = TYPE_NONE\<rparr>,
      tap = STATE_TEST_LOGIC_RESET, trace = [], shifts = 0, tdo = dev, out_file = []\<rparr>"

text \<open>Two device tables of one entry each, and three chains: one that answers the IDCODE
  shift with the ECP5 id, one with the NX id, and one that returns only zeros.\<close>

definition example_tables :: tables where
  "example_tables =
     \<lparr>ecp_devices = [(''LFE5U-25'', 0x41111043)], nx_devices = [(''LIFCL-40'', 0x010F1043)]\<rparr>"

definition ecp5_chain :: "nat \<Rightarrow> u8 list" where
  "ecp5_chain n = (if n = 1 then [0x43, 0x10, 0x11, 0x41] else [])"

definition nx_chain :: "nat \<Rightarrow> u8 list" where
  "nx_chain n = (if n = 1 then [0x43, 0x10, 0x0F, 0x01] else [])"

definition empty_chain :: "nat \<Rightarrow> u8 list" where
  "empty_chain n = []"

text \<open>The IDCODE that \<^verbatim>\<open>read_idcode\<close> assembles when started in state \<open>st\<close>: its DR shift
  is the second shift from there.\<close>

definition idcode_read :: "state \<Rightarrow> u32" where
  "idcode_read st = format32 (tdo_bytes 32 (tdo st (Suc (shifts st)))) 0"

section \<open>Notions used to state the properties\<close>

text \<open>One poll of \<^verbatim>\<open>flash_wait\<close> from state \<open>st\<close>: whether it sees the busy bit (bit 0 of
  Status Register 1) clear, the state right after it, and the state at the next poll, which
  comes after \<^verbatim>\<open>usleep(1000)\<close>.\<close>

definition poll_ready :: "state \<Rightarrow> bool" where
  "poll_ready st = ((fst (xfer_spi [FC_RSR1, 0] 2 st) ! 1) AND 0x01 = 0)"

definition poll_state :: "state \<Rightarrow> state" where
  "poll_state st = snd (xfer_spi [FC_RSR1, 0] 2 st)"

definition next_poll :: "state \<Rightarrow> state" where
  "next_poll st = usleep 1000 (poll_state st)"

text \<open>Polls number \<open>k\<close>, \<open>k + 1\<close> and \<open>k + 2\<close> from \<open>st\<close> (counting from 0) all see the
  flash ready.\<close>

definition ready_run :: "nat \<Rightarrow> state \<Rightarrow> bool" where
  "ready_run k st =
     (poll_ready ((next_poll ^^ k) st) \<and> poll_ready ((next_poll ^^ (k + 1)) st) \<and>
      poll_ready ((next_poll ^^ (k + 2)) st))"

text \<open>The loop of \<^verbatim>\<open>flash_wait\<close>, entered with the given count in state \<open>st\<close>, leaves at
  poll number \<open>k\<close>.\<close>

fun returns_at :: "nat \<Rightarrow> int \<Rightarrow> state \<Rightarrow> bool" where
  "returns_at 0 count st = (poll_ready st \<and> \<not> count < 2)"
| "returns_at (Suc k) count st =
     (if poll_ready st then count < 2 \<and> returns_at k (count + 1) (next_poll st)
      else returns_at k 0 (next_poll st))"

text \<open>A flash that reports busy at the first two polls and ready afterwards: on the wire
  the status byte arrives bit-reversed, so busy is the top bit of the second byte.\<close>

definition busy_twice_chain :: "nat \<Rightarrow> u8 list" where
  "busy_twice_chain n = (if n < 2 then [0x00, 0x80] else [])"

text \<open>A transport that \<^verbatim>\<open>mpsse_init\<close> has opened, with a given library behind it, and a
  library whose every call fails with code -1.\<close>

definition open_transport :: "(nat \<Rightarrow> ftdi_reply) \<Rightarrow> mpsse_state" where
  "open_transport lib =
     \<lparr>mpsse_ftdic_open = True, mpsse_ftdic_latency_set = True, mpsse_ftdi_latency = 16,
      mpsse_error_last = 0, ftdi_calls = [], ftdi_replies = lib\<rparr>"

definition failing_lib :: "nat \<Rightarrow> ftdi_reply" where
  "failing_lib n = \<lparr>rc = - 1, rx = []\<rparr>"

text \<open>The transport after a first transfer whose write has failed.\<close>

definition failed_transport :: mpsse_state where
  "failed_transport =
     \<lparr>mpsse_ftdic_open = True, mpsse_ftdic_latency_set = True, mpsse_ftdi_latency = 16,
      mpsse_error_last = 2,
      ftdi_calls = [Ftdi_write_data [0x3C], Ftdi_set_latency_timer 16, Ftdi_usb_close,
                    Ftdi_deinit],
      ftdi_replies = failing_lib\<rparr>"

text \<open>The library calls made from one state of the transport to a later one, each with the
  code it returned.\<close>

definition answered :: "mpsse_state \<Rightarrow> mpsse_state \<Rightarrow> (ftdi_call \<times> int) list" where
  "answered st st' =
     map (\<lambda>n. (ftdi_calls st' ! n, rc (ftdi_replies st n)))
       [length (ftdi_calls st)..<length (ftdi_calls st')]"

text \<open>The tests that mpsse.c applies to a return code. In a transfer: a write must return
  the count of bytes passed, a read must not return a negative code.\<close>

fun io_failed :: "ftdi_call \<times> int \<Rightarrow> bool" where
  "io_failed (Ftdi_write_data bytes, r) = (r \<noteq> int (length bytes))"
| "io_failed (Ftdi_read_data n, r) = (r < 0)"
| "io_failed (c, r) = False"

text \<open>In \<^verbatim>\<open>mpsse_init\<close>: the open, the reset and the purge must return zero, the latency
  calls and the bit mode must not return a negative code. Of the two default devices only the
  second is tested as such, the first is a try; \<^verbatim>\<open>ftdi_init\<close> and \<^verbatim>\<open>ftdi_set_interface\<close>
  are not tested at all.\<close>

fun setup_failed :: "ftdi_call \<times> int \<Rightarrow> bool" where
  "setup_failed (Ftdi_usb_open_string s, r) = (r \<noteq> 0)"
| "setup_failed (Ftdi_usb_open vendor product, r) = (product = 0x6014 \<and> r \<noteq> 0)"
| "setup_failed (Ftdi_usb_reset, r) = (r \<noteq> 0)"
| "setup_failed (Ftdi_usb_purge_buffers, r) = (r \<noteq> 0)"
| "setup_failed (Ftdi_get_latency_timer, r) = (r < 0)"
| "setup_failed (Ftdi_set_latency_timer t, r) = (r < 0)"
| "setup_failed (Ftdi_set_bitmode pins m, r) = (r < 0)"
| "setup_failed (c, r) = False"

definition init_failed :: "ftdi_call \<times> int \<Rightarrow> bool" where
  "init_failed x = (setup_failed x \<or> io_failed x)"

text \<open>A later state of the same transport: the library is the same and the calls made
  so far are still there.\<close>

definition extends :: "mpsse_state \<Rightarrow> mpsse_state \<Rightarrow> bool" where
  "extends st st' = (ftdi_replies st' = ftdi_replies st \<and> prefix (ftdi_calls st) (ftdi_calls st'))"

text \<open>The error field follows a test from \<open>st\<close> to \<open>st'\<close>: it is 2 when one of the calls
  made in between has failed the test, and what it was otherwise.\<close>

definition error_follows :: "(ftdi_call \<times> int \<Rightarrow> bool) \<Rightarrow> mpsse_state \<Rightarrow> mpsse_state \<Rightarrow> bool" where
  "error_follows test st st' =
     (extends st st' \<and>
      mpsse_error_last st' = (if list_ex test (answered st st') then 2 else mpsse_error_last st))"

text \<open>A library whose first call succeeds with one byte and whose later calls all fail, and
  the transport after a transfer whose write it has taken and whose read it has failed.\<close>

definition read_failing_lib :: "nat \<Rightarrow> ftdi_reply" where
  "read_failing_lib n = (if n = 0 then \<lparr>rc = 1, rx = []\<rparr> else \<lparr>rc = - 1, rx = []\<rparr>)"

definition read_failed_transport :: mpsse_state where
  "read_failed_transport =
     \<lparr>mpsse_ftdic_open = True, mpsse_ftdic_latency_set = True, mpsse_ftdi_latency = 16,
      mpsse_error_last = 2,
      ftdi_calls = [Ftdi_write_data [0x3C], Ftdi_read_data 1, Ftdi_set_latency_timer 16,
                    Ftdi_usb_close, Ftdi_deinit],
      ftdi_replies = read_failing_lib\<rparr>"

text \<open>The transport after a \<^verbatim>\<open>mpsse_recv_byte\<close> whose read has failed.\<close>

definition failed_receive :: mpsse_state where
  "failed_receive =
     \<lparr>mpsse_ftdic_open = True, mpsse_ftdic_latency_set = True, mpsse_ftdi_latency = 16,
      mpsse_error_last = 2,
      ftdi_calls = [Ftdi_read_data 1, Ftdi_set_latency_timer 16, Ftdi_usb_close, Ftdi_deinit],
      ftdi_replies = failing_lib\<rparr>"

text \<open>The globals of mpsse.c when the process starts, and a run of \<^verbatim>\<open>mpsse_init\<close> on a
  machine that has the second default device only: the open of the first device returns an
  error, every other call succeeds, the saved latency is 16. The command bytes are those of
  the FTDI application note that mpsse.c cites.\<close>

definition closed_transport :: "(nat \<Rightarrow> ftdi_reply) \<Rightarrow> mpsse_state" where
  "closed_transport lib =
     \<lparr>mpsse_ftdic_open = False, mpsse_ftdic_latency_set = False, mpsse_ftdi_latency = 0,
      mpsse_error_last = 0, ftdi_calls = [], ftdi_replies = lib\<rparr>"

definition second_device_lib :: "nat \<Rightarrow> ftdi_reply" where
  "second_device_lib n =
     (if n = 2 then \<lparr>rc = - 3, rx = []\<rparr>
      else if n = 6 then \<lparr>rc = 0, rx = [16]\<rparr>
      else if 10 \<le> n then \<lparr>rc = 1, rx = []\<rparr>
      else \<lparr>rc = 0, rx = []\<rparr>)"

definition example_commands :: mpsse_commands where
  "example_commands = \<lparr>MC_TCK_X5 = 0x8A, MC_SET_CLK_DIV = 0x86, MC_SETB_LOW = 0x80\<rparr>"

definition ready_transport :: mpsse_state where
  "ready_transport =
     \<lparr>mpsse_ftdic_open = True, mpsse_ftdic_latency_set = True, mpsse_ftdi_latency = 16,
      mpsse_error_last = 0,
      ftdi_calls = [Ftdi_init, Ftdi_set_interface INTERFACE_A, Ftdi_usb_open 0x0403 0x6010,
                    Ftdi_usb_open 0x0403 0x6014, Ftdi_usb_reset, Ftdi_usb_purge_buffers,
                    Ftdi_get_latency_timer, Ftdi_set_latency_timer 1,
                    Ftdi_set_bitmode 0xff BITMODE_MPSSE, Ftdi_usb_purge_buffers,
                    Ftdi_write_data [0x8A], Ftdi_write_data [0x86], Ftdi_write_data [0x00],
                    Ftdi_write_data [0x00], Ftdi_write_data [0x80], Ftdi_write_data [0x08],
                    Ftdi_write_data [0x0B]],
      ftdi_replies = second_device_lib\<rparr>"

text \<open>A file cut into chunks of \<open>n\<close> bytes, the last one shorter when the length is not a
  multiple of \<open>n\<close>.\<close>

function chunks_of :: "nat \<Rightarrow> 'a list \<Rightarrow> 'a list list" where
  "chunks_of n xs = (if n = 0 \<or> xs = [] then [] else take n xs # chunks_of n (drop n xs))"
  by pat_completeness auto
termination
  by (relation "measure (\<lambda>(n, xs). length xs)") auto

declare chunks_of.simps [simp del]

text \<open>What the SRAM branch does with one chunk: the move to Capture-DR and the shift of
  the bit-reversed bytes, with \<^verbatim>\<open>must_end\<close> false.\<close>

definition sram_chunk :: "u8 list \<Rightarrow> state \<Rightarrow> state" where
  "sram_chunk c st =
     snd (jtag_tap_shift (map bit_reverse c) (length c * 8) False
            (jtag_go_to_state STATE_CAPTURE_DR st))"

text \<open>Running a list of steps, each of which may fail to return.\<close>

primrec fold_option :: "('a \<Rightarrow> 's \<Rightarrow> 's option) \<Rightarrow> 'a list \<Rightarrow> 's \<Rightarrow> 's option" where
  "fold_option step [] s = Some s"
| "fold_option step (x # xs) s = Option.bind (step x s) (fold_option step xs)"

text \<open>The page split in the words of the spec: the first page is \<open>256 - (offset mod 256)\<close>
  bytes, the pages after it are 256 bytes, the final page is the remainder. A page is its
  flash address and its bytes.\<close>

function full_pages :: "int \<Rightarrow> u8 list \<Rightarrow> (int \<times> u8 list) list" where
  "full_pages a d = (if d = [] then [] else (a, take 256 d) # full_pages (a + 256) (drop 256 d))"
  by pat_completeness auto
termination
  by (relation "measure (\<lambda>(a, d). length d)") auto

declare full_pages.simps [simp del]

definition spec_page_split :: "int \<Rightarrow> u8 list \<Rightarrow> (int \<times> u8 list) list" where
  "spec_page_split offset d =
     (if d = [] then []
      else (let first = nat (256 - offset mod 256)
            in (offset, take first d) # full_pages (offset + int first) (drop first d)))"

text \<open>The cycle of one page: Write Enable, Page Program, wait.\<close>

definition page_cycle :: "int \<times> u8 list \<Rightarrow> state \<Rightarrow> state option" where
  "page_cycle p st =
     flash_wait (snd (flash_prog (fst p) (snd p) (length (snd p)) (flash_write_enable st)))"

text \<open>The bytes that a list of page programs writes, each with its flash address, in the
  order written.\<close>

definition page_bytes :: "int \<Rightarrow> u8 list \<Rightarrow> (int \<times> u8) list" where
  "page_bytes a d = zip (map (\<lambda>k. a + int k) [0..<length d]) d"

definition written_bytes :: "(int \<times> u8 list) list \<Rightarrow> (int \<times> u8) list" where
  "written_bytes ps = concat (map (\<lambda>p. page_bytes (fst p) (snd p)) ps)"

text \<open>The erase pass in the words of the spec: the command for the configured block size,
  the cycle of one block (Write Enable, the erase command, the status read of verbose mode,
  wait), and the block-aligned addresses of a range.\<close>

definition erase_opcode :: "int \<Rightarrow> u8" where
  "erase_opcode ebs = (if ebs = 4 then FC_SE else if ebs = 32 then FC_BE32 else FC_BE64)"

definition erase_cycle :: "int \<Rightarrow> int \<Rightarrow> state \<Rightarrow> state option" where
  "erase_cycle ebs addr st0 =
     (let st = flash_write_enable st0;
          st = snd (xfer_spi [erase_opcode ebs, addr_byte 16 addr, addr_byte 8 addr,
                              addr_byte 0 addr] 4 st);
          st = (if verbose st then snd (flash_read_status st) else st)
      in flash_wait st)"

definition block_addrs :: "int \<Rightarrow> int \<Rightarrow> int \<Rightarrow> int list" where
  "block_addrs bs b e = map (\<lambda>k. b + int k * bs) [0..<nat ((e - b) div bs)]"

text \<open>Options for the default mode: program and verify at offset 0 with 64 KiB erase
  blocks, and the same for an erase of 10 bytes at offset 70000.\<close>

definition default_options :: options where
  "default_options =
     \<lparr>read_size = 256 * 1024, erase_block_size = 64, rw_offset = 0, clkdiv = 1,
      reinitialize = False, read_mode = False, check_mode = False, erase_mode = False,
      bulk_erase = False, dont_erase = False, prog_sram = False, test_mode = False,
      disable_protect = False, disable_verify = False, devstr = None, ifnum = 0,
      file_size = 0\<rparr>"

definition erase_options :: options where
  "erase_options = default_options\<lparr>rw_offset := 70000, erase_mode := True, file_size := 10\<rparr>"

text \<open>The verify pass over the chunks of the file: the state after reading back a list of
  chunks, whether the read-back of a chunk equals it, and the pass that stops at the first
  chunk that differs.\<close>

definition after_reads :: "u8 list list \<Rightarrow> state \<Rightarrow> state" where
  "after_reads cs st = fold (\<lambda>c s. snd (flash_continue_read (length c) s)) cs st"

definition chunk_matches :: "u8 list \<Rightarrow> state \<Rightarrow> bool" where
  "chunk_matches c st = (fst (flash_continue_read (length c) st) = c)"

fun verify_chunks :: "u8 list list \<Rightarrow> state \<Rightarrow> (int \<times> state) + state" where
  "verify_chunks [] st = Inr st"
| "verify_chunks (c # cs) st =
     (if chunk_matches c st then verify_chunks cs (snd (flash_continue_read (length c) st))
      else Inl (jtag_error 3 (qprintf Msg_found_difference
                               (snd (flash_continue_read (length c) st)))))"



text \<open>The state in which \<^verbatim>\<open>ecpprog_main\<close> reaches its mode branches, and the state in
  which the verify pass of check mode (\<^verbatim>\<open>-c\<close>) starts its loop.\<close>

definition mode_start :: "options \<Rightarrow> tables \<Rightarrow> state \<Rightarrow> state" where
  "mode_start opts tabs st0 =
     read_status_register
       (read_idcode tabs (jtag_init (ifnum opts) (devstr opts) (clkdiv opts) st0))"


text \<open>A later state of the same run: the trace has only grown, and the device on the chain
  and the verbosity are the same.\<close>

definition continues :: "state \<Rightarrow> state \<Rightarrow> bool" where
  "continues st st' =
     (prefix (trace st) (trace st') \<and> tdo st' = tdo st \<and> verbose st' = verbose st)"

text \<open>The options of \<^verbatim>\<open>-t\<close>.\<close>

definition test_options :: options where
  "test_options = default_options\<lparr>test_mode := True\<rparr>"

section \<open>Reading the IDCODE and the status register\<close>

lemma bit_u8_bound: "bit (b :: u8) n \<Longrightarrow> n < 8"
  by (drule bit_imp_le_length) simp

lemma format32_four:
  "format32 [b0, b1, b2, b3] 0 =
     push_bit 24 (ucast b3) OR push_bit 16 (ucast b2) OR push_bit 8 (ucast b1) OR ucast b0"
  apply simp
  apply (rule bit_word_eqI)
  apply (auto simp add: bit_simps dest: bit_u8_bound)
  done

lemma length_tdo_bytes [simp]: "length (tdo_bytes bits resp) = (bits + 7) div 8"
  by (cases "(bits + 7) div 8 = 0") (auto simp add: tdo_bytes_def Let_def min_def)

lemma list_of_length4: "length xs = 4 \<Longrightarrow> xs = [xs ! 0, xs ! 1, xs ! 2, xs ! 3]"
  by (auto simp add: numeral_eq_Suc length_Suc_conv)

lemma replicate4: "replicate 4 x = [x, x, x, x]"
  by (simp add: numeral_eq_Suc)

lemma replicate8: "replicate 8 x = [x, x, x, x, x, x, x, x]"
  by (simp add: numeral_eq_Suc)

lemma singleton_update: "length xs = Suc 0 \<Longrightarrow> (xs @ ys)[0 := v] = v # ys"
  by (cases xs) auto

lemma read_idcode_eq:
  "read_idcode tabs st =
     print_idcode tabs (idcode_read st)
       (st\<lparr>trace := trace st @ [Jtag_go_to_state STATE_SHIFT_IR, Jtag_tap_shift [READ_ID] 8 True,
                                Jtag_go_to_state STATE_SHIFT_DR, Jtag_tap_shift [0, 0, 0, 0] 32 True],
           shifts := Suc (Suc (shifts st)), tap := STATE_EXIT1_DR\<rparr>)"
  by (simp add: read_idcode_def jtag_go_to_state_def jtag_tap_shift_def emit_def Let_def
      singleton_update idcode_read_def)

lemma find_device_None: "find_device tab idcode = None \<longleftrightarrow> idcode \<notin> snd ` set tab"
  by (induction tab idcode rule: find_device.induct) auto

lemma print_idcode_type:
  "dev_type (connected_device (print_idcode tabs idcode st)) =
     (if idcode \<in> snd ` set (ecp_devices tabs) then TYPE_ECP5
      else if idcode \<in> snd ` set (nx_devices tabs) then TYPE_NX
      else dev_type (connected_device st))"
  using find_device_None[of "ecp_devices tabs" idcode] find_device_None[of "nx_devices tabs" idcode]
  by (auto simp add: print_idcode_def Let_def qprintf_def emit_def split: option.splits)

lemma print_idcode_id: "dev_id (connected_device (print_idcode tabs idcode st)) = idcode"
  by (simp add: print_idcode_def Let_def qprintf_def emit_def split: option.splits)

lemma read_idcode_id: "dev_id (connected_device (read_idcode tabs st)) = idcode_read st"
  by (simp add: read_idcode_eq print_idcode_id)

lemma read_idcode_type:
  "dev_type (connected_device (read_idcode tabs st)) =
     (if idcode_read st \<in> snd ` set (ecp_devices tabs) then TYPE_ECP5
      else if idcode_read st \<in> snd ` set (nx_devices tabs) then TYPE_NX
      else dev_type (connected_device st))"
  by (simp add: read_idcode_eq print_idcode_type)

lemma read_status_register_none:
  "dev_type (connected_device st) = TYPE_NONE \<Longrightarrow>
   read_status_register st =
     st\<lparr>trace := trace st @ [Jtag_go_to_state STATE_SHIFT_IR, Jtag_tap_shift [LSC_READ_STATUS] 8 True,
                                Jtag_go_to_state STATE_SHIFT_DR],
         shifts := Suc (shifts st), tap := STATE_SHIFT_DR\<rparr>"
  by (simp add: read_status_register_def jtag_go_to_state_def jtag_tap_shift_def emit_def Let_def
      singleton_update)

lemma read_status_register_ecp5:
  "dev_type (connected_device st) = TYPE_ECP5 \<Longrightarrow>
   read_status_register st =
     st\<lparr>trace := trace st @ [Jtag_go_to_state STATE_SHIFT_IR, Jtag_tap_shift [LSC_READ_STATUS] 8 True,
                                Jtag_go_to_state STATE_SHIFT_DR, Jtag_tap_shift [0, 0, 0, 0] 32 True,
                                Qprintf (Msg_ecp5_status (format32 (tdo_bytes 32 (tdo st (Suc (shifts st)))) 0))],
         shifts := Suc (Suc (shifts st)), tap := STATE_EXIT1_DR\<rparr>"
  by (simp add: read_status_register_def jtag_go_to_state_def jtag_tap_shift_def emit_def Let_def
      singleton_update print_ecp5_status_register_def qprintf_def)

lemma read_status_register_nx:
  "dev_type (connected_device st) = TYPE_NX \<Longrightarrow>
   read_status_register st =
     st\<lparr>trace := trace st @ [Jtag_go_to_state STATE_SHIFT_IR, Jtag_tap_shift [LSC_READ_STATUS] 8 True,
                                Jtag_go_to_state STATE_SHIFT_DR, Jtag_tap_shift [0, 0, 0, 0, 0, 0, 0, 0] 64 True,
                                Qprintf (Msg_nx_status (format64 (tdo_bytes 64 (tdo st (Suc (shifts st)))) 0))],
         shifts := Suc (Suc (shifts st)), tap := STATE_EXIT1_DR\<rparr>"
  by (simp add: read_status_register_def jtag_go_to_state_def jtag_tap_shift_def emit_def Let_def
      singleton_update print_nx_status_register_def qprintf_def)

text \<open>C7. \<^verbatim>\<open>read_idcode\<close> shifts 8 bits (the READ_ID instruction) into IR, then 32 bits out
  of DR, and hands \<^verbatim>\<open>print_idcode\<close> the value
  \<open>(byte3 << 24) | (byte2 << 16) | (byte1 << 8) | byte0\<close> of the four bytes captured; the
  loop \<^verbatim>\<open>idcode = data[i] << 24 | idcode >> 8\<close> run over exactly four bytes gives that
  value.\<close>

theorem read_idcode_reassembles_bytes:
  "read_idcode tabs st =
     (let r = tdo_bytes 32 (tdo st (Suc (shifts st)));
          idcode = push_bit 24 (ucast (r ! 3)) OR push_bit 16 (ucast (r ! 2)) OR
                   push_bit 8 (ucast (r ! 1)) OR ucast (r ! 0)
      in print_idcode tabs idcode
           (st\<lparr>trace := trace st @
                   [Jtag_go_to_state STATE_SHIFT_IR, Jtag_tap_shift [READ_ID] 8 True,
                    Jtag_go_to_state STATE_SHIFT_DR, Jtag_tap_shift [0, 0, 0, 0] 32 True],
               shifts := Suc (Suc (shifts st)), tap := STATE_EXIT1_DR\<rparr>))
   \<and> dev_id (connected_device (read_idcode tabs st)) =
       (let r = tdo_bytes 32 (tdo st (Suc (shifts st)))
        in push_bit 24 (ucast (r ! 3)) OR push_bit 16 (ucast (r ! 2)) OR
           push_bit 8 (ucast (r ! 1)) OR ucast (r ! 0))
   \<and> format32 [b0, b1, b2, b3] 0 =
       push_bit 24 (ucast b3) OR push_bit 16 (ucast b2) OR push_bit 8 (ucast b1) OR ucast b0"
proof -
  let ?r = "tdo_bytes 32 (tdo st (Suc (shifts st)))"
  have "length ?r = 4" by simp
  then have r: "?r = [?r ! 0, ?r ! 1, ?r ! 2, ?r ! 3]" by (rule list_of_length4)
  have "idcode_read st = format32 [?r ! 0, ?r ! 1, ?r ! 2, ?r ! 3] 0"
    unfolding idcode_read_def using r by simp
  then have id: "idcode_read st =
      push_bit 24 (ucast (?r ! 3)) OR push_bit 16 (ucast (?r ! 2)) OR
      push_bit 8 (ucast (?r ! 1)) OR ucast (?r ! 0)"
    by (simp only: format32_four)
  have 1: "read_idcode tabs st =
      print_idcode tabs
        (push_bit 24 (ucast (?r ! 3)) OR push_bit 16 (ucast (?r ! 2)) OR
         push_bit 8 (ucast (?r ! 1)) OR ucast (?r ! 0))
        (st\<lparr>trace := trace st @
                [Jtag_go_to_state STATE_SHIFT_IR, Jtag_tap_shift [READ_ID] 8 True,
                 Jtag_go_to_state STATE_SHIFT_DR, Jtag_tap_shift [0, 0, 0, 0] 32 True],
            shifts := Suc (Suc (shifts st)), tap := STATE_EXIT1_DR\<rparr>)"
    using read_idcode_eq [of tabs st] by (simp only: id)
  have 2: "dev_id (connected_device (read_idcode tabs st)) =
      push_bit 24 (ucast (?r ! 3)) OR push_bit 16 (ucast (?r ! 2)) OR
      push_bit 8 (ucast (?r ! 1)) OR ucast (?r ! 0)"
    using read_idcode_id [of tabs st] by (simp only: id)
  show ?thesis
    unfolding Let_def by (intro conjI) (rule 1, rule 2, rule format32_four)
qed

text \<open>C8. When the IDCODE that \<^verbatim>\<open>read_idcode\<close> has read is in the ECP5 table, the status
  read that follows shifts the LSC_READ_STATUS instruction and then exactly 32 DR bits, and
  reports a 32-bit status; when it is in the NX table, exactly 64 DR bits and a 64-bit
  status. The two tables are those of lattice_cmds.h, which share no id.\<close>

theorem status_read_width_follows_family:
  assumes "snd ` set (ecp_devices tabs) \<inter> snd ` set (nx_devices tabs) = {}"
    and "st1 = read_idcode tabs st"
  shows "(dev_id (connected_device st1) \<in> snd ` set (ecp_devices tabs) \<longrightarrow>
            read_status_register st1 =
              st1\<lparr>trace := trace st1 @
                      [Jtag_go_to_state STATE_SHIFT_IR, Jtag_tap_shift [LSC_READ_STATUS] 8 True,
                       Jtag_go_to_state STATE_SHIFT_DR, Jtag_tap_shift [0, 0, 0, 0] 32 True,
                       Qprintf (Msg_ecp5_status
                                 (format32 (tdo_bytes 32 (tdo st1 (Suc (shifts st1)))) 0))],
                  shifts := Suc (Suc (shifts st1)), tap := STATE_EXIT1_DR\<rparr>)
       \<and> (dev_id (connected_device st1) \<in> snd ` set (nx_devices tabs) \<longrightarrow>
            read_status_register st1 =
              st1\<lparr>trace := trace st1 @
                      [Jtag_go_to_state STATE_SHIFT_IR, Jtag_tap_shift [LSC_READ_STATUS] 8 True,
                       Jtag_go_to_state STATE_SHIFT_DR,
                       Jtag_tap_shift [0, 0, 0, 0, 0, 0, 0, 0] 64 True,
                       Qprintf (Msg_nx_status
                                 (format64 (tdo_bytes 64 (tdo st1 (Suc (shifts st1)))) 0))],
                  shifts := Suc (Suc (shifts st1)), tap := STATE_EXIT1_DR\<rparr>)"
proof (intro conjI impI)
  assume "dev_id (connected_device st1) \<in> snd ` set (ecp_devices tabs)"
  then have "dev_type (connected_device st1) = TYPE_ECP5"
    using assms(2) by (simp add: read_idcode_id read_idcode_type)
  then show "read_status_register st1 =
      st1\<lparr>trace := trace st1 @
              [Jtag_go_to_state STATE_SHIFT_IR, Jtag_tap_shift [LSC_READ_STATUS] 8 True,
               Jtag_go_to_state STATE_SHIFT_DR, Jtag_tap_shift [0, 0, 0, 0] 32 True,
               Qprintf (Msg_ecp5_status (format32 (tdo_bytes 32 (tdo st1 (Suc (shifts st1)))) 0))],
          shifts := Suc (Suc (shifts st1)), tap := STATE_EXIT1_DR\<rparr>"
    by (rule read_status_register_ecp5)
next
  assume nx: "dev_id (connected_device st1) \<in> snd ` set (nx_devices tabs)"
  with assms(1) have "dev_id (connected_device st1) \<notin> snd ` set (ecp_devices tabs)"
    by blast
  with nx have "dev_type (connected_device st1) = TYPE_NX"
    using assms(2) by (simp add: read_idcode_id read_idcode_type)
  then show "read_status_register st1 =
      st1\<lparr>trace := trace st1 @
              [Jtag_go_to_state STATE_SHIFT_IR, Jtag_tap_shift [LSC_READ_STATUS] 8 True,
               Jtag_go_to_state STATE_SHIFT_DR, Jtag_tap_shift [0, 0, 0, 0, 0, 0, 0, 0] 64 True,
               Qprintf (Msg_nx_status (format64 (tdo_bytes 64 (tdo st1 (Suc (shifts st1)))) 0))],
          shifts := Suc (Suc (shifts st1)), tap := STATE_EXIT1_DR\<rparr>"
    by (rule read_status_register_nx)
qed

text \<open>C10. When the IDCODE read is in neither table and the device type is still
  \<open>TYPE_NONE\<close>, \<^verbatim>\<open>read_status_register\<close> shifts the LSC_READ_STATUS instruction into IR and
  goes to Shift-DR, and that is all: no DR shift follows and no status is reported.\<close>

theorem status_read_without_family:
  assumes "dev_type (connected_device st) = TYPE_NONE"
    and "st1 = read_idcode tabs st"
    and "dev_id (connected_device st1) \<notin> snd ` set (ecp_devices tabs)"
    and "dev_id (connected_device st1) \<notin> snd ` set (nx_devices tabs)"
  shows "dev_type (connected_device st1) = TYPE_NONE
       \<and> read_status_register st1 =
           st1\<lparr>trace := trace st1 @
                   [Jtag_go_to_state STATE_SHIFT_IR, Jtag_tap_shift [LSC_READ_STATUS] 8 True,
                    Jtag_go_to_state STATE_SHIFT_DR],
               shifts := Suc (shifts st1), tap := STATE_SHIFT_DR\<rparr>"
proof -
  have t: "dev_type (connected_device st1) = TYPE_NONE"
    using assms by (simp add: read_idcode_id read_idcode_type)
  from t read_status_register_none [OF t] show ?thesis by simp
qed


lemma idcode_read_ecp5_chain: "idcode_read (boot_state ecp5_chain) = 0x41111043"
  by (simp add: idcode_read_def boot_state_def ecp5_chain_def tdo_bytes_def)

lemma idcode_read_nx_chain: "idcode_read (boot_state nx_chain) = 0x010F1043"
  by (simp add: idcode_read_def boot_state_def nx_chain_def tdo_bytes_def)

lemma idcode_read_empty_chain: "idcode_read (boot_state empty_chain) = 0"
  by (simp add: idcode_read_def boot_state_def empty_chain_def tdo_bytes_def replicate4)

lemma example_table_ids:
  "snd ` set (ecp_devices example_tables) = {0x41111043}"
  "snd ` set (nx_devices example_tables) = {0x010F1043}"
  by (simp_all add: example_tables_def)

lemma print_idcode_device [simp]:
  "tdo (print_idcode tabs idcode st) = tdo st"
  "shifts (print_idcode tabs idcode st) = shifts st"
  "tap (print_idcode tabs idcode st) = tap st"
  "verbose (print_idcode tabs idcode st) = verbose st"
  by (simp_all add: print_idcode_def Let_def qprintf_def emit_def split: option.splits)

theorem status_read_width_follows_family_witness:
  "(let st1 = read_idcode example_tables (boot_state ecp5_chain)
    in dev_id (connected_device st1) \<in> snd ` set (ecp_devices example_tables) \<and>
       trace (read_status_register st1) =
         trace st1 @
           [Jtag_go_to_state STATE_SHIFT_IR, Jtag_tap_shift [LSC_READ_STATUS] 8 True,
            Jtag_go_to_state STATE_SHIFT_DR, Jtag_tap_shift [0, 0, 0, 0] 32 True,
            Qprintf (Msg_ecp5_status 0)])
   \<and> (let st1 = read_idcode example_tables (boot_state nx_chain)
      in dev_id (connected_device st1) \<in> snd ` set (nx_devices example_tables) \<and>
         trace (read_status_register st1) =
           trace st1 @
             [Jtag_go_to_state STATE_SHIFT_IR, Jtag_tap_shift [LSC_READ_STATUS] 8 True,
              Jtag_go_to_state STATE_SHIFT_DR, Jtag_tap_shift [0, 0, 0, 0, 0, 0, 0, 0] 64 True,
              Qprintf (Msg_nx_status 0)])"
proof -
  let ?e = "read_idcode example_tables (boot_state ecp5_chain)"
  let ?n = "read_idcode example_tables (boot_state nx_chain)"
  have disj: "snd ` set (ecp_devices example_tables) \<inter> snd ` set (nx_devices example_tables) = {}"
    by (simp add: example_table_ids)
  have e: "dev_id (connected_device ?e) \<in> snd ` set (ecp_devices example_tables)"
    by (simp add: read_idcode_id idcode_read_ecp5_chain example_table_ids)
  have n: "dev_id (connected_device ?n) \<in> snd ` set (nx_devices example_tables)"
    by (simp add: read_idcode_id idcode_read_nx_chain example_table_ids)
  have se: "format32 (tdo_bytes 32 (tdo ?e (Suc (shifts ?e)))) 0 = 0"
    by (simp add: read_idcode_eq boot_state_def ecp5_chain_def tdo_bytes_def replicate4)
  have sn: "format64 (tdo_bytes 64 (tdo ?n (Suc (shifts ?n)))) 0 = 0"
    by (simp add: read_idcode_eq boot_state_def nx_chain_def tdo_bytes_def replicate8)
  note thm_e = status_read_width_follows_family [OF disj refl, of "boot_state ecp5_chain"]
  note thm_n = status_read_width_follows_family [OF disj refl, of "boot_state nx_chain"]
  from thm_e [THEN conjunct1, rule_format, OF e]
  have 1: "trace (read_status_register ?e) =
      trace ?e @
           [Jtag_go_to_state STATE_SHIFT_IR, Jtag_tap_shift [LSC_READ_STATUS] 8 True,
            Jtag_go_to_state STATE_SHIFT_DR, Jtag_tap_shift [0, 0, 0, 0] 32 True,
            Qprintf (Msg_ecp5_status 0)]"
    by (simp only: se) simp
  from thm_n [THEN conjunct2, rule_format, OF n]
  have 2: "trace (read_status_register ?n) =
      trace ?n @
             [Jtag_go_to_state STATE_SHIFT_IR, Jtag_tap_shift [LSC_READ_STATUS] 8 True,
              Jtag_go_to_state STATE_SHIFT_DR, Jtag_tap_shift [0, 0, 0, 0, 0, 0, 0, 0] 64 True,
              Qprintf (Msg_nx_status 0)]"
    by (simp only: sn) simp
  show ?thesis unfolding Let_def by (intro conjI) (rule e, rule 1, rule n, rule 2)
qed

theorem status_read_without_family_witness:
  "(let st1 = read_idcode example_tables (boot_state empty_chain)
    in dev_type (connected_device (boot_state empty_chain)) = TYPE_NONE \<and>
       dev_id (connected_device st1) = 0 \<and>
       dev_id (connected_device st1) \<notin> snd ` set (ecp_devices example_tables) \<and>
       dev_id (connected_device st1) \<notin> snd ` set (nx_devices example_tables) \<and>
       dev_type (connected_device st1) = TYPE_NONE \<and>
       trace (read_status_register st1) =
         trace st1 @
           [Jtag_go_to_state STATE_SHIFT_IR, Jtag_tap_shift [LSC_READ_STATUS] 8 True,
            Jtag_go_to_state STATE_SHIFT_DR])"
proof -
  let ?st1 = "read_idcode example_tables (boot_state empty_chain)"
  have t: "dev_type (connected_device (boot_state empty_chain)) = TYPE_NONE"
    by (simp add: boot_state_def)
  have i: "dev_id (connected_device ?st1) = 0"
    by (simp add: read_idcode_id idcode_read_empty_chain)
  have e: "dev_id (connected_device ?st1) \<notin> snd ` set (ecp_devices example_tables)"
    by (simp add: i example_table_ids)
  have n: "dev_id (connected_device ?st1) \<notin> snd ` set (nx_devices example_tables)"
    by (simp add: i example_table_ids)
  from status_read_without_family [OF t refl e n]
  have "dev_type (connected_device ?st1) = TYPE_NONE"
    and "trace (read_status_register ?st1) =
         trace ?st1 @
           [Jtag_go_to_state STATE_SHIFT_IR, Jtag_tap_shift [LSC_READ_STATUS] 8 True,
            Jtag_go_to_state STATE_SHIFT_DR]"
    by simp_all
  then show ?thesis unfolding Let_def using t i e n by blast
qed

section \<open>The busy wait\<close>

lemma flash_wait_loop_unfold:
  "flash_wait_loop c st =
     (if poll_ready st then
        (if c < 2 then flash_wait_loop (c + 1) (next_poll st) else Some (poll_state st))
      else flash_wait_loop 0 (next_poll st))"
  by (subst flash_wait_loop.simps)
     (simp add: poll_ready_def poll_state_def next_poll_def split: prod.splits)

lemma returns_at_imp_Some:
  "returns_at k c st \<Longrightarrow> flash_wait_loop c st = Some (poll_state ((next_poll ^^ k) st))"
proof (induction k arbitrary: c st)
  case 0
  then show ?case by (subst flash_wait_loop_unfold) simp
next
  case (Suc k)
  show ?case
  proof (cases "poll_ready st")
    case True
    with Suc.prems have c: "c < 2" and r: "returns_at k (c + 1) (next_poll st)" by simp_all
    from Suc.IH [OF r] True c show ?thesis
      by (subst flash_wait_loop_unfold) (simp add: funpow_swap1)
  next
    case False
    with Suc.prems have r: "returns_at k 0 (next_poll st)" by simp
    from Suc.IH [OF r] False show ?thesis
      by (subst flash_wait_loop_unfold) (simp add: funpow_swap1)
  qed
qed

lemma Some_imp_returns_at:
  assumes a: "flash_wait_loop c st = Some st'"
  shows "\<exists>k. returns_at k c st \<and> st' = poll_state ((next_poll ^^ k) st)"
proof (rule flash_wait_loop.raw_induct
    [where P = "\<lambda>c st st'. \<exists>k. returns_at k c st \<and> st' = poll_state ((next_poll ^^ k) st)", OF _ a])
  fix loop :: "int \<Rightarrow> state \<Rightarrow> state option" and c st st'
  assume IH: "\<And>c st y. loop c st = Some y \<Longrightarrow>
                \<exists>k. returns_at k c st \<and> y = poll_state ((next_poll ^^ k) st)"
    and body: "(let (data, st1) = xfer_spi [FC_RSR1, 0] 2 st
                in if data ! 1 AND 1 = 0
                   then if c < 2 then loop (c + 1) (usleep 1000 st1) else Some st1
                   else loop 0 (usleep 1000 st1)) = Some st'"
  show "\<exists>k. returns_at k c st \<and> st' = poll_state ((next_poll ^^ k) st)"
  proof (cases "poll_ready st")
    case True
    show ?thesis
    proof (cases "c < 2")
      case c: True
      from body True c have "loop (c + 1) (next_poll st) = Some st'"
        by (simp add: poll_ready_def poll_state_def next_poll_def split: prod.splits)
      from IH [OF this] obtain k where
        "returns_at k (c + 1) (next_poll st)" "st' = poll_state ((next_poll ^^ k) (next_poll st))"
        by blast
      with True c have "returns_at (Suc k) c st \<and> st' = poll_state ((next_poll ^^ Suc k) st)"
        by (simp add: funpow_swap1)
      then show ?thesis by blast
    next
      case c: False
      from body True c have "st' = poll_state st"
        by (simp add: poll_ready_def poll_state_def next_poll_def split: prod.splits)
      with True c have "returns_at 0 c st \<and> st' = poll_state ((next_poll ^^ 0) st)" by simp
      then show ?thesis by blast
    qed
  next
    case False
    from body False have "loop 0 (next_poll st) = Some st'"
      by (simp add: poll_ready_def poll_state_def next_poll_def split: prod.splits)
    from IH [OF this] obtain k where
      "returns_at k 0 (next_poll st)" "st' = poll_state ((next_poll ^^ k) (next_poll st))"
      by blast
    with False have "returns_at (Suc k) c st \<and> st' = poll_state ((next_poll ^^ Suc k) st)"
      by (simp add: funpow_swap1)
    then show ?thesis by blast
  qed
qed

lemma returns_at_unique: "returns_at k c st \<Longrightarrow> returns_at k' c st \<Longrightarrow> k = k'"
proof (induction k arbitrary: c st k')
  case 0
  then show ?case by (cases k') (auto split: if_splits)
next
  case (Suc k)
  then show ?case by (cases k') (auto split: if_splits)
qed


lemma returns_at_ready:
  "returns_at k c st \<Longrightarrow> 0 \<le> c \<Longrightarrow>
   (\<forall>i. i \<le> k \<and> k \<le> i + 2 \<longrightarrow> poll_ready ((next_poll ^^ i) st)) \<and> 2 \<le> int k + c"
proof (induction k arbitrary: c st)
  case 0
  then show ?case by simp
next
  case (Suc k)
  show ?case
  proof (cases "poll_ready st")
    case True
    with Suc.prems have c: "c < 2" and r: "returns_at k (c + 1) (next_poll st)" by simp_all
    from Suc.IH [OF r] Suc.prems(2)
    have ih: "\<And>i. i \<le> k \<Longrightarrow> k \<le> i + 2 \<Longrightarrow> poll_ready ((next_poll ^^ Suc i) st)"
      and b: "2 \<le> int k + (c + 1)"
      by (simp_all add: funpow_swap1)
    have "poll_ready ((next_poll ^^ i) st)" if "i \<le> Suc k" "Suc k \<le> i + 2" for i
    proof (cases i)
      case 0
      with True show ?thesis by simp
    next
      case (Suc i')
      with that ih [of i'] show ?thesis by simp
    qed
    with b show ?thesis by simp
  next
    case False
    with Suc.prems have r: "returns_at k 0 (next_poll st)" by simp
    from Suc.IH [OF r]
    have ih: "\<And>i. i \<le> k \<Longrightarrow> k \<le> i + 2 \<Longrightarrow> poll_ready ((next_poll ^^ Suc i) st)"
      and b: "2 \<le> int k"
      by (simp_all add: funpow_swap1)
    have "poll_ready ((next_poll ^^ i) st)" if "i \<le> Suc k" "Suc k \<le> i + 2" for i
    proof (cases i)
      case 0
      with that b show ?thesis by simp
    next
      case (Suc i')
      with that ih [of i'] show ?thesis by simp
    qed
    with b Suc.prems(2) show ?thesis by simp
  qed
qed

lemma returns_at_ready_run:
  assumes "returns_at k 0 st"
  shows "2 \<le> k \<and> ready_run (k - 2) st"
proof -
  from returns_at_ready [OF assms]
  have r: "\<And>i. i \<le> k \<Longrightarrow> k \<le> i + 2 \<Longrightarrow> poll_ready ((next_poll ^^ i) st)" and k: "2 \<le> k"
    by simp_all
  from k r [of "k - 2"] r [of "k - 2 + 1"] r [of "k - 2 + 2"] show ?thesis
    by (simp add: ready_run_def)
qed

lemma ready_run_Suc: "ready_run (Suc j) st = ready_run j (next_poll st)"
  by (simp add: ready_run_def funpow_swap1)

lemma ready_run_returns:
  "0 \<le> c \<Longrightarrow> ready_run j st \<Longrightarrow> \<exists>m \<le> j + 2. returns_at m c st"
proof (induction j arbitrary: c st)
  case 0
  then have r: "poll_ready st" "poll_ready (next_poll st)" "poll_ready (next_poll (next_poll st))"
    by (simp_all add: ready_run_def numeral_2_eq_2)
  consider "2 \<le> c" | "c = 1" | "c = 0" using 0(1) by linarith
  then show ?case
  proof cases
    case 1
    with r have "returns_at 0 c st" by simp
    then show ?thesis by blast
  next
    case 2
    with r have "returns_at (Suc 0) c st" by simp
    moreover have "Suc 0 \<le> 0 + 2" by simp
    ultimately show ?thesis by blast
  next
    case 3
    with r have "returns_at (Suc (Suc 0)) c st" by simp
    moreover have "Suc (Suc 0) \<le> 0 + 2" by simp
    ultimately show ?thesis by blast
  qed
next
  case (Suc j)
  from Suc.prems(2) have rr: "ready_run j (next_poll st)" by (simp add: ready_run_Suc)
  show ?case
  proof (cases "poll_ready st")
    case True
    show ?thesis
    proof (cases "c < 2")
      case c: True
      from Suc.IH [OF _ rr, of "c + 1"] Suc.prems(1) obtain m where
        "m \<le> j + 2" "returns_at m (c + 1) (next_poll st)" by auto
      with True c have "Suc m \<le> Suc j + 2 \<and> returns_at (Suc m) c st" by simp
      then show ?thesis by blast
    next
      case c: False
      with True have "returns_at 0 c st" by simp
      then show ?thesis by blast
    qed
  next
    case False
    from Suc.IH [OF _ rr, of 0] obtain m where
      "m \<le> j + 2" "returns_at m 0 (next_poll st)" by auto
    with False have "Suc m \<le> Suc j + 2 \<and> returns_at (Suc m) c st" by simp
    then show ?thesis by blast
  qed
qed

lemma flash_wait_iff:
  "flash_wait st = Some st' \<longleftrightarrow>
     (\<exists>k. ready_run k st \<and> (\<forall>j<k. \<not> ready_run j st) \<and>
          st' = poll_state ((next_poll ^^ (k + 2)) st))"
proof
  assume "flash_wait st = Some st'"
  then obtain k0 where k0: "returns_at k0 0 st" and st': "st' = poll_state ((next_poll ^^ k0) st)"
    unfolding flash_wait_def using Some_imp_returns_at by blast
  from returns_at_ready_run [OF k0] have k2: "2 \<le> k0" and run: "ready_run (k0 - 2) st"
    by simp_all
  define k where "k = k0 - 2"
  with k2 have k0_eq: "k0 = k + 2" by simp
  have "\<not> ready_run j st" if "j < k" for j
  proof
    assume "ready_run j st"
    from ready_run_returns [OF _ this, of 0] obtain m where "m \<le> j + 2" "returns_at m 0 st"
      by auto
    with returns_at_unique [OF k0, of m] that k0_eq show False by simp
  qed
  moreover from run have "ready_run k st" by (simp only: k_def)
  moreover from st' have "st' = poll_state ((next_poll ^^ (k + 2)) st)" by (simp only: k0_eq)
  ultimately show "\<exists>k. ready_run k st \<and> (\<forall>j<k. \<not> ready_run j st) \<and>
          st' = poll_state ((next_poll ^^ (k + 2)) st)"
    by blast
next
  assume "\<exists>k. ready_run k st \<and> (\<forall>j<k. \<not> ready_run j st) \<and>
          st' = poll_state ((next_poll ^^ (k + 2)) st)"
  then obtain k where run: "ready_run k st" and first: "\<And>j. j < k \<Longrightarrow> \<not> ready_run j st"
    and st': "st' = poll_state ((next_poll ^^ (k + 2)) st)"
    by blast
  from ready_run_returns [OF _ run, of 0] obtain m where m: "m \<le> k + 2" "returns_at m 0 st"
    by auto
  from returns_at_ready_run [OF m(2)] have "2 \<le> m" "ready_run (m - 2) st" by simp_all
  with first [of "m - 2"] m(1) have "m = k + 2" by (cases "m - 2 < k") simp_all
  with returns_at_imp_Some [OF m(2)] st' show "flash_wait st = Some st'"
    by (simp add: flash_wait_def)
qed


lemma bit_reverse_rsr1: "bit_reverse FC_RSR1 = 0xA0"
  by (simp add: bit_reverse_def FC_RSR1_def)

lemma poll_state_trace:
  "trace (poll_state st) =
     trace st @ (if tap st \<noteq> STATE_SHIFT_DR then [Jtag_go_to_state STATE_SHIFT_DR] else []) @
       [Jtag_tap_shift [0xA0, 0x00] 16 True]"
  by (simp add: poll_state_def xfer_spi_def jtag_current_state_def jtag_go_to_state_def
      jtag_tap_shift_def emit_def reverse_bytes_def Let_def bit_reverse_def FC_RSR1_def)

text \<open>C5. \<^verbatim>\<open>flash_wait\<close> returns exactly when three polls in a row have seen the busy bit
  (bit 0 of Status Register 1) clear, at the third poll of the first such run: a busy poll in
  between starts the count again. A poll is one Read Status Register 1 transaction, and
  consecutive polls are separated by \<^verbatim>\<open>usleep(1000)\<close>; the last poll is not followed by a
  sleep.\<close>

theorem flash_wait_three_ready_polls:
  "(flash_wait st = Some st' \<longleftrightarrow>
      (\<exists>k. ready_run k st \<and> (\<forall>j<k. \<not> ready_run j st) \<and>
           st' = poll_state ((next_poll ^^ (k + 2)) st)))
   \<and> trace (poll_state st0) =
       trace st0 @ (if tap st0 \<noteq> STATE_SHIFT_DR then [Jtag_go_to_state STATE_SHIFT_DR] else []) @
         [Jtag_tap_shift [0xA0, 0x00] 16 True]
   \<and> trace (next_poll st0) = trace (poll_state st0) @ [Usleep 1000]"
  by (intro conjI)
     (rule flash_wait_iff, rule poll_state_trace, simp add: next_poll_def usleep_def emit_def)

lemma list_of_length2: "length xs = 2 \<Longrightarrow> \<exists>a b. xs = [a, b]"
  by (auto simp add: numeral_eq_Suc length_Suc_conv)

lemma poll_ready_iff:
  "poll_ready st \<longleftrightarrow> bit_reverse (tdo_bytes 16 (tdo st (shifts st)) ! 1) AND 0x01 = 0"
proof -
  have "length (tdo_bytes 16 (tdo st (shifts st))) = 2" by simp
  then obtain a b where "tdo_bytes 16 (tdo st (shifts st)) = [a, b]"
    using list_of_length2 by blast
  then show ?thesis
    by (simp add: poll_ready_def xfer_spi_def jtag_tap_shift_def jtag_go_to_state_def emit_def
        jtag_current_state_def reverse_bytes_def Let_def)
qed

lemma next_poll_device [simp]:
  "shifts (next_poll st) = Suc (shifts st)" "tdo (next_poll st) = tdo st"
  by (simp_all add: next_poll_def poll_state_def usleep_def xfer_spi_def jtag_tap_shift_def
      jtag_go_to_state_def emit_def jtag_current_state_def Let_def)

lemma funpow_next_poll_device [simp]:
  "shifts ((next_poll ^^ i) st) = shifts st + i" "tdo ((next_poll ^^ i) st) = tdo st"
  by (induction i) simp_all

lemma poll_ready_nth:
  "poll_ready ((next_poll ^^ i) st) \<longleftrightarrow>
     bit_reverse (tdo_bytes 16 (tdo st (shifts st + i)) ! 1) AND 0x01 = 0"
  by (simp add: poll_ready_iff)

lemma replicate2: "replicate 2 x = [x, x]"
  by (simp add: numeral_eq_Suc)

lemma bit_reverse_values: "bit_reverse 0x80 = 0x01" "bit_reverse 0 = 0"
  by (simp_all add: bit_reverse_def)

lemma busy_twice_ready:
  "poll_ready ((next_poll ^^ i) (boot_state busy_twice_chain)) \<longleftrightarrow> 2 \<le> i"
proof (cases "i < 2")
  case True
  then have "tdo_bytes 16 (busy_twice_chain i) = [0x00, 0x80]"
    by (simp add: busy_twice_chain_def tdo_bytes_def)
  with True show ?thesis
    by (simp add: poll_ready_nth boot_state_def bit_reverse_values)
next
  case False
  then have "tdo_bytes 16 (busy_twice_chain i) = [0x00, 0x00]"
    by (simp add: busy_twice_chain_def tdo_bytes_def replicate2)
  with False show ?thesis
    by (simp add: poll_ready_nth boot_state_def bit_reverse_values)
qed

theorem flash_wait_three_ready_polls_witness:
  "flash_wait (boot_state busy_twice_chain) =
     Some (poll_state ((next_poll ^^ 4) (boot_state busy_twice_chain)))"
proof -
  let ?st = "boot_state busy_twice_chain"
  have run: "ready_run 2 ?st" by (simp add: ready_run_def busy_twice_ready)
  have first: "\<forall>j<2. \<not> ready_run j ?st" by (simp add: ready_run_def busy_twice_ready)
  have "\<exists>k. ready_run k ?st \<and> (\<forall>j<k. \<not> ready_run j ?st) \<and>
          poll_state ((next_poll ^^ 4) ?st) = poll_state ((next_poll ^^ (k + 2)) ?st)"
    using run first by (intro exI [of _ 2]) simp
  with flash_wait_three_ready_polls [of ?st "poll_state ((next_poll ^^ 4) ?st)" ?st]
  show ?thesis by blast
qed

section \<open>The sticky error of the transport\<close>

lemma extends_refl [simp]: "extends st st"
  by (simp add: extends_def)

lemma extends_trans: "extends a b \<Longrightarrow> extends b c \<Longrightarrow> extends a c"
  by (auto simp add: extends_def)

lemma answered_refl [simp]: "answered st st = []"
  by (simp add: answered_def)

lemma answered_append:
  assumes "extends a b" "extends b c"
  shows "answered a c = answered a b @ answered b c"
proof -
  from assms obtain xs ys where b: "ftdi_calls b = ftdi_calls a @ xs"
    and c: "ftdi_calls c = ftdi_calls b @ ys"
    and r: "ftdi_replies b = ftdi_replies a"
    by (auto simp add: extends_def prefix_def)
  have "[length (ftdi_calls a)..<length (ftdi_calls c)] =
        [length (ftdi_calls a)..<length (ftdi_calls b)] @ [length (ftdi_calls b)..<length (ftdi_calls c)]"
  proof -
    have "[length (ftdi_calls a)..<length (ftdi_calls a) + length xs + length ys] =
          [length (ftdi_calls a)..<length (ftdi_calls a) + length xs] @
          [length (ftdi_calls a) + length xs..<length (ftdi_calls a) + length xs + length ys]"
      by (rule upt_add_eq_append) simp
    with b c show ?thesis by (simp add: add.assoc)
  qed
  moreover have "\<And>n. n < length (ftdi_calls b) \<Longrightarrow> ftdi_calls c ! n = ftdi_calls b ! n"
    using c by (simp add: nth_append)
  ultimately show ?thesis
    by (simp add: answered_def r)
qed

lemma error_follows_refl [simp]: "error_follows test st st"
  by (simp add: error_follows_def)

lemma error_follows_trans:
  assumes "error_follows test a b" "error_follows test b c"
  shows "error_follows test a c"
  using assms answered_append [of a b c]
  by (auto simp add: error_follows_def intro: extends_trans)

lemma extends_ftdi: "extends st (snd (ftdi c st))"
  by (simp add: ftdi_def extends_def)

lemma answered_ftdi:
  "answered st (snd (ftdi c st)) = [(c, rc (ftdi_replies st (length (ftdi_calls st))))]"
  by (simp add: ftdi_def answered_def)

lemma ftdi_passes:
  assumes "ftdi c st = (r, st')" "\<not> test (c, rc r)"
  shows "error_follows test st st'"
proof -
  from assms(1) have "st' = snd (ftdi c st)" "r = ftdi_replies st (length (ftdi_calls st))"
    by (simp_all add: ftdi_def)
  with assms(2) show ?thesis
    using extends_ftdi [of st c] answered_ftdi [of st c]
    by (simp add: error_follows_def ftdi_def)
qed

lemma extends_mpsse_error: "extends st (mpsse_error status st)"
  by (simp add: mpsse_error_def ftdi_def extends_def Let_def)

lemma mpsse_error_last_mpsse_error [simp]:
  "mpsse_error_last (mpsse_error status st) = status"
  by (simp add: mpsse_error_def ftdi_def Let_def)

lemma ftdi_fails:
  assumes "ftdi c st = (r, st')" "test (c, rc r)"
  shows "error_follows test st (mpsse_error 2 st')"
proof -
  from assms(1) have s: "st' = snd (ftdi c st)" "r = ftdi_replies st (length (ftdi_calls st))"
    by (simp_all add: ftdi_def)
  have e: "extends st st'" "extends st' (mpsse_error 2 st')"
    using s extends_ftdi extends_mpsse_error by simp_all
  from answered_append [OF e] assms(2) s have "list_ex test (answered st (mpsse_error 2 st'))"
    by (simp add: answered_ftdi)
  with e show ?thesis
    by (simp add: error_follows_def extends_trans [OF e])
qed

lemma error_follows_update_open:
  "error_follows test st (st\<lparr>mpsse_ftdic_open := b\<rparr>)"
  by (simp add: error_follows_def extends_def answered_def)

lemma error_follows_update_latency_set:
  "error_follows test st (st\<lparr>mpsse_ftdic_latency_set := b\<rparr>)"
  by (simp add: error_follows_def extends_def answered_def)

lemma error_follows_update_latency:
  "error_follows test st (st\<lparr>mpsse_ftdi_latency := b\<rparr>)"
  by (simp add: error_follows_def extends_def answered_def)

lemma mpsse_send_byte_follows:
  assumes "\<And>bytes r. test (Ftdi_write_data bytes, r) = (r \<noteq> int (length bytes))"
  shows "error_follows test st (mpsse_send_byte d st)"
proof (cases "rc (fst (ftdi (Ftdi_write_data [d]) st)) = 1")
  case True
  then show ?thesis
    using ftdi_passes [of "Ftdi_write_data [d]" st _ _ test] assms
    by (auto simp add: mpsse_send_byte_def ftdi_write_data_def Let_def split: prod.splits)
next
  case False
  then show ?thesis
    using ftdi_fails [of "Ftdi_write_data [d]" st _ _ test] assms
    by (auto simp add: mpsse_send_byte_def ftdi_write_data_def Let_def split: prod.splits)
qed

lemma ftdi_read_data_passes:
  assumes "ftdi_read_data buf at n st = (r, buf', st')" "\<not> r < 0"
    and "\<And>n r. test (Ftdi_read_data n, r) = (r < 0)"
  shows "error_follows test st st'"
  using assms ftdi_passes [of "Ftdi_read_data n" st _ st' test]
  by (auto simp add: ftdi_read_data_def Let_def split: prod.splits if_splits)

lemma ftdi_read_data_fails:
  assumes "ftdi_read_data buf at n st = (r, buf', st')" "r < 0"
    and "\<And>n r. test (Ftdi_read_data n, r) = (r < 0)"
  shows "error_follows test st (mpsse_error 2 st')"
  using assms ftdi_fails [of "Ftdi_read_data n" st _ st' test]
  by (auto simp add: ftdi_read_data_def Let_def split: prod.splits if_splits)

lemma mpsse_xfer_receive_follows:
  assumes a: "mpsse_xfer_receive rl rxl buf st = Some (buf', st')"
  shows "error_follows io_failed st st'"
proof -
  have "error_follows io_failed st (snd (buf', st'))"
  proof (rule mpsse_xfer_receive.raw_induct
      [where P = "\<lambda>rl rxl buf st y. error_follows io_failed st (snd y)", OF _ a])
    fix f :: "nat \<Rightarrow> nat \<Rightarrow> u8 list \<Rightarrow> mpsse_state \<Rightarrow> (u8 list \<times> mpsse_state) option"
      and rl rxl buf st y
    assume ih: "\<And>a b c d z. f a b c d = Some z \<Longrightarrow> error_follows io_failed d (snd z)"
    assume b: "(if rxl \<noteq> rl then
          (let (r, data_buffer', st1) = ftdi_read_data buf rxl (int rl - int rxl) st
           in if r < 0 then Some (data_buffer', mpsse_error 2 st1)
              else f rl ((rxl + nat r) mod 65536) data_buffer' st1)
        else Some (buf, st)) = Some y"
    show "error_follows io_failed st (snd y)"
    proof (cases "rxl \<noteq> rl")
      case False
      with b show ?thesis by auto
    next
      case True
      obtain r buf1 st1 where rd: "ftdi_read_data buf rxl (int rl - int rxl) st = (r, buf1, st1)"
        by (cases "ftdi_read_data buf rxl (int rl - int rxl) st") auto
      show ?thesis
      proof (cases "r < 0")
        case True
        with b \<open>rxl \<noteq> rl\<close> rd have "snd y = mpsse_error 2 st1" by auto
        with ftdi_read_data_fails [OF rd True] show ?thesis by simp
      next
        case False
        with b \<open>rxl \<noteq> rl\<close> rd have "f rl ((rxl + nat r) mod 65536) buf1 st1 = Some y" by auto
        from ih [OF this] ftdi_read_data_passes [OF rd False, of io_failed]
        show ?thesis by (auto intro: error_follows_trans)
      qed
    qed
  qed
  then show ?thesis by simp
qed

lemma mpsse_xfer_follows:
  assumes a: "mpsse_xfer buf s r st = Some (buf', st')" and l: "s \<le> length buf"
  shows "error_follows io_failed st st'"
proof (cases "mpsse_error_last st \<noteq> 0")
  case True
  with a show ?thesis by (simp add: mpsse_xfer_def)
next
  case e: False
  show ?thesis
  proof (cases "s = 0")
    case True
    with a e show ?thesis
      by (auto simp add: mpsse_xfer_def split: if_splits intro: mpsse_xfer_receive_follows)
  next
    case s: False
    obtain w st1 where f: "ftdi (Ftdi_write_data (take s buf)) st = (w, st1)"
      by (cases "ftdi (Ftdi_write_data (take s buf)) st") auto
    have t: "io_failed (Ftdi_write_data (take s buf), rc w) = (rc w \<noteq> int s)"
      using l by simp
    show ?thesis
    proof (cases "rc w = int s")
      case False
      with a e s f have "st' = mpsse_error 2 st1"
        by (simp add: mpsse_xfer_def ftdi_write_data_def)
      with ftdi_fails [OF f, of io_failed] t False show ?thesis by simp
    next
      case True
      with ftdi_passes [OF f, of io_failed] t have p: "error_follows io_failed st st1" by simp
      from a e s f True have "(if r \<noteq> 0 then mpsse_xfer_receive r 0 buf st1 else Some (buf, st1)) = Some (buf', st')"
        by (simp add: mpsse_xfer_def ftdi_write_data_def)
      then have "error_follows io_failed st1 st'"
        by (auto split: if_splits intro: mpsse_xfer_receive_follows)
      with p show ?thesis by (rule error_follows_trans)
    qed
  qed
qed

text \<open>A failure of the library ends the receive loop.\<close>

lemma mpsse_xfer_receive_returns:
  assumes "length (ftdi_calls st) \<le> n" "rc (ftdi_replies st n) < 0"
  shows "mpsse_xfer_receive rl rxl buf st \<noteq> None"
  using assms
proof (induction "n - length (ftdi_calls st)" arbitrary: st rxl buf)
  case 0
  then have n: "n = length (ftdi_calls st)" by simp
  show ?case
    using "0.prems"(2) unfolding n
    by (subst mpsse_xfer_receive.simps) (simp add: ftdi_read_data_def ftdi_def Let_def)
next
  case (Suc k)
  let ?st1 = "snd (ftdi (Ftdi_read_data (int rl - int rxl)) st)"
  have 1: "k = n - length (ftdi_calls ?st1)" "length (ftdi_calls ?st1) \<le> n"
    "rc (ftdi_replies ?st1 n) < 0"
    using Suc.hyps(2) Suc.prems by (simp_all add: ftdi_def)
  have ih: "\<And>rxl buf. mpsse_xfer_receive rl rxl buf ?st1 \<noteq> None"
    using Suc.hyps(1) [OF 1] .
  show ?case
    by (subst mpsse_xfer_receive.simps)
       (use ih in \<open>auto simp add: ftdi_read_data_def Let_def split: prod.splits\<close>)
qed

lemma mpsse_xfer_returns:
  assumes "length (ftdi_calls st) \<le> n" "rc (ftdi_replies st n) < 0"
  shows "mpsse_xfer buf s r st \<noteq> None"
proof (cases "mpsse_error_last st \<noteq> 0 \<or> s = 0")
  case True
  with mpsse_xfer_receive_returns [OF assms] show ?thesis
    by (auto simp add: mpsse_xfer_def)
next
  case False
  let ?st1 = "snd (ftdi (Ftdi_write_data (take s buf)) st)"
  show ?thesis
  proof (cases "rc (ftdi_replies st (length (ftdi_calls st))) = int s")
    case w: False
    with False show ?thesis
      by (simp add: mpsse_xfer_def ftdi_write_data_def ftdi_def)
  next
    case True
    with assms have "n \<noteq> length (ftdi_calls st)" by auto
    with assms have 1: "length (ftdi_calls ?st1) \<le> n" "rc (ftdi_replies ?st1 n) < 0"
      by (simp_all add: ftdi_def)
    from mpsse_xfer_receive_returns [OF 1] True False show ?thesis
      by (auto simp add: mpsse_xfer_def ftdi_write_data_def Let_def split: prod.splits)
  qed
qed

lemma mpsse_recv_byte_follows:
  assumes a: "mpsse_recv_byte st = Some (b, st')"
  shows "error_follows io_failed st st'"
proof -
  have "error_follows io_failed st (snd (b, st'))"
  proof (rule mpsse_recv_byte.raw_induct
      [where P = "\<lambda>st y. error_follows io_failed st (snd y)", OF _ a])
    fix f :: "mpsse_state \<Rightarrow> (u8 \<times> mpsse_state) option" and st y
    assume ih: "\<And>d z. f d = Some z \<Longrightarrow> error_follows io_failed d (snd z)"
    assume b: "(let (r, data, st1) = ftdi_read_data [0] 0 1 st
         in if r < 0 then Some (0, mpsse_error 2 st1)
            else if r = 1 then Some (data ! 0, st1)
            else f (snd (ftdi (Mpsse_usleep 100) st1))) = Some y"
    obtain r data st1 where rd: "ftdi_read_data [0] 0 1 st = (r, data, st1)"
      by (cases "ftdi_read_data [0] 0 1 st") auto
    show "error_follows io_failed st (snd y)"
    proof (cases "r < 0")
      case True
      with b rd have "snd y = mpsse_error 2 st1" by auto
      with ftdi_read_data_fails [OF rd True] show ?thesis by simp
    next
      case False
      from ftdi_read_data_passes [OF rd False, of io_failed]
      have p: "error_follows io_failed st st1" by simp
      show ?thesis
      proof (cases "r = 1")
        case True
        with b rd False have "snd y = st1" by auto
        with p show ?thesis by simp
      next
        case n1: False
        let ?st2 = "snd (ftdi (Mpsse_usleep 100) st1)"
        from b rd False n1 have "f ?st2 = Some y" by auto
        from ih [OF this] have q: "error_follows io_failed ?st2 (snd y)" .
        have "error_follows io_failed st1 ?st2"
          by (rule ftdi_passes [of "Mpsse_usleep 100" st1 "fst (ftdi (Mpsse_usleep 100) st1)"]) simp_all
        from error_follows_trans [OF p error_follows_trans [OF this q]] show ?thesis .
      qed
    qed
  qed
  then show ?thesis by simp
qed

text \<open>The reads of \<^verbatim>\<open>mpsse_recv_byte\<close> are every second call, with a sleep in between; a
  read that fails ends the loop.\<close>

lemma mpsse_recv_byte_returns:
  assumes "rc (ftdi_replies st (length (ftdi_calls st) + 2 * k)) < 0"
  shows "mpsse_recv_byte st \<noteq> None"
  using assms
proof (induction k arbitrary: st)
  case 0
  then show ?case
    by (subst mpsse_recv_byte.simps) (simp add: ftdi_read_data_def ftdi_def Let_def)
next
  case (Suc k)
  let ?st2 = "snd (ftdi (Mpsse_usleep 100) (snd (ftdi (Ftdi_read_data 1) st)))"
  have "rc (ftdi_replies ?st2 (length (ftdi_calls ?st2) + 2 * k)) < 0"
    using Suc.prems by (simp add: ftdi_def)
  from Suc.IH [OF this] show ?case
    by (subst mpsse_recv_byte.simps)
       (auto simp add: ftdi_read_data_def Let_def split: prod.splits)
qed

lemma mpsse_error_last_mpsse_close:
  "mpsse_error_last (mpsse_close st) = mpsse_error_last st"
  by (simp add: mpsse_close_def ftdi_def Let_def)

lemma mpsse_error_last_ftdi_read_data:
  "ftdi_read_data buf at n st = (r, buf', st') \<Longrightarrow> mpsse_error_last st' = mpsse_error_last st"
  by (auto simp add: ftdi_read_data_def ftdi_def Let_def split: if_splits)

lemma mpsse_error_last_mpsse_check_rx_loop:
  "mpsse_error_last (mpsse_check_rx_loop cnt st) = mpsse_error_last st"
proof (induction cnt st rule: mpsse_check_rx_loop.induct)
  case (1 cnt st0)
  obtain r data st where rd: "ftdi_read_data [0] 0 1 st0 = (r, data, st)"
    by (cases "ftdi_read_data [0] 0 1 st0") auto
  from mpsse_error_last_ftdi_read_data [OF rd] have e: "mpsse_error_last st = mpsse_error_last st0" .
  show ?case
  proof (cases "r \<le> 0 \<or> cnt + 1 > 32")
    case True
    with rd e show ?thesis
      by (subst mpsse_check_rx_loop.simps) auto
  next
    case False
    with "1.IH" [of "(r, data, st)" r "(data, st)" data st] rd
    have "mpsse_error_last (mpsse_check_rx_loop (cnt + 1) st) = mpsse_error_last st" by simp
    with False rd e show ?thesis
      by (subst mpsse_check_rx_loop.simps) auto
  qed
qed

lemma init_failed_write [simp]:
  "init_failed (Ftdi_write_data bytes, r) = (r \<noteq> int (length bytes))"
  by (simp add: init_failed_def)

lemma send_byte_init: "error_follows init_failed st (mpsse_send_byte d st)"
  by (rule mpsse_send_byte_follows) simp

lemma ftdi_get_latency_timer_passes:
  assumes "ftdi_get_latency_timer st = (r, st')" "\<not> r < 0"
  shows "error_follows init_failed st st'"
proof -
  obtain w st1 where f: "ftdi Ftdi_get_latency_timer st = (w, st1)"
    by (cases "ftdi Ftdi_get_latency_timer st") auto
  with assms have "rc w = r" "st' = st1\<lparr>mpsse_ftdi_latency := hd (rx w @ [0])\<rparr>"
    by (auto simp add: ftdi_get_latency_timer_def split: if_splits)
  with ftdi_passes [OF f, of init_failed] assms(2) error_follows_update_latency [of init_failed st1]
  show ?thesis
    by (auto simp add: init_failed_def intro: error_follows_trans)
qed

lemma ftdi_get_latency_timer_fails:
  assumes "ftdi_get_latency_timer st = (r, st')" "r < 0"
  shows "error_follows init_failed st (mpsse_error 2 st')"
proof -
  obtain w st1 where f: "ftdi Ftdi_get_latency_timer st = (w, st1)"
    by (cases "ftdi Ftdi_get_latency_timer st") auto
  with assms have "rc w = r" "st' = st1"
    by (auto simp add: ftdi_get_latency_timer_def split: if_splits)
  with ftdi_fails [OF f, of init_failed] assms(2) show ?thesis
    by (simp add: init_failed_def)
qed

lemma init_unchecked:
  assumes "\<And>r. \<not> init_failed (c, r)" "error_follows init_failed (snd (ftdi c st)) X"
  shows "error_follows init_failed st X"
proof -
  have "error_follows init_failed st (snd (ftdi c st))"
    by (rule ftdi_passes [of c st "fst (ftdi c st)"]) (simp_all add: assms(1))
  from this assms(2) show ?thesis by (rule error_follows_trans)
qed

lemma init_step:
  assumes "\<And>r. bad r = init_failed (c, rc r)"
    and "\<And>st1. error_follows init_failed st1 (snd (k st1))"
  shows "error_follows init_failed st
           (snd (case ftdi c st of (r, st1) \<Rightarrow> if bad r then (- 1, mpsse_error 2 st1) else k st1))"
proof -
  obtain r st1 where f: "ftdi c st = (r, st1)"
    by (cases "ftdi c st") auto
  show ?thesis
  proof (cases "bad r")
    case True
    with ftdi_fails [OF f, of init_failed] assms(1) f show ?thesis by simp
  next
    case False
    with ftdi_passes [OF f, of init_failed] assms(1) have "error_follows init_failed st st1" by simp
    from error_follows_trans [OF this assms(2)] f False show ?thesis by simp
  qed
qed

lemma init_step_latency:
  assumes "\<And>st1. error_follows init_failed st1 (snd (k st1))"
  shows "error_follows init_failed st
           (snd (case ftdi_get_latency_timer st of
                   (r, st1) \<Rightarrow> if r < 0 then (- 1, mpsse_error 2 st1) else k st1))"
proof -
  obtain r st1 where f: "ftdi_get_latency_timer st = (r, st1)"
    by (cases "ftdi_get_latency_timer st") auto
  show ?thesis
  proof (cases "r < 0")
    case True
    with ftdi_get_latency_timer_fails [OF f] f show ?thesis by simp
  next
    case False
    from error_follows_trans [OF ftdi_get_latency_timer_passes [OF f False] assms] f False
    show ?thesis by simp
  qed
qed

lemma init_open:
  assumes k: "\<And>st1. error_follows init_failed st1 (snd (k st1))"
  shows "error_follows init_failed st
           (snd (case (case devstr' of
                         None \<Rightarrow>
                           (case ftdi (Ftdi_usb_open 0x0403 0x6010) st of
                              (r, st) \<Rightarrow>
                                if rc r \<noteq> 0
                                then (case ftdi (Ftdi_usb_open 0x0403 0x6014) st of
                                        (r, st) \<Rightarrow> (rc r \<noteq> 0, st))
                                else (False, st))
                       | Some s \<Rightarrow>
                           (case ftdi (Ftdi_usb_open_string s) st of (r, st) \<Rightarrow> (rc r \<noteq> 0, st))) of
                   (no_device, st1) \<Rightarrow> if no_device then (- 1, mpsse_error 2 st1) else k st1))"
proof (cases devstr')
  case (Some s)
  obtain r st1 where f: "ftdi (Ftdi_usb_open_string s) st = (r, st1)"
    by (cases "ftdi (Ftdi_usb_open_string s) st") auto
  show ?thesis
  proof (cases "rc r \<noteq> 0")
    case True
    with ftdi_fails [OF f, of init_failed] f Some show ?thesis by (simp add: init_failed_def)
  next
    case False
    with ftdi_passes [OF f, of init_failed] have "error_follows init_failed st st1"
      by (simp add: init_failed_def)
    from error_follows_trans [OF this k] f False Some show ?thesis by simp
  qed
next
  case None
  obtain r st1 where f: "ftdi (Ftdi_usb_open 0x0403 0x6010) st = (r, st1)"
    by (cases "ftdi (Ftdi_usb_open 0x0403 0x6010) st") auto
  from ftdi_passes [OF f, of init_failed] have p: "error_follows init_failed st st1"
    by (simp add: init_failed_def)
  show ?thesis
  proof (cases "rc r \<noteq> 0")
    case False
    from error_follows_trans [OF p k] f False None show ?thesis by simp
  next
    case True
    obtain r2 st2 where g: "ftdi (Ftdi_usb_open 0x0403 0x6014) st1 = (r2, st2)"
      by (cases "ftdi (Ftdi_usb_open 0x0403 0x6014) st1") auto
    show ?thesis
    proof (cases "rc r2 \<noteq> 0")
      case t: True
      with ftdi_fails [OF g, of init_failed] have "error_follows init_failed st1 (mpsse_error 2 st2)"
        by (simp add: init_failed_def)
      from error_follows_trans [OF p this] f g True t None show ?thesis by simp
    next
      case n: False
      with ftdi_passes [OF g, of init_failed] have "error_follows init_failed st1 st2"
        by (simp add: init_failed_def)
      from error_follows_trans [OF p error_follows_trans [OF this k]] f g True n None
      show ?thesis by simp
    qed
  qed
qed

lemma init_update_open:
  "error_follows test (st\<lparr>mpsse_ftdic_open := b\<rparr>) X \<Longrightarrow> error_follows test st X"
  by (rule error_follows_trans [OF error_follows_update_open])

lemma init_update_latency_set:
  "error_follows test (st\<lparr>mpsse_ftdic_latency_set := b\<rparr>) X \<Longrightarrow> error_follows test st X"
  by (rule error_follows_trans [OF error_follows_update_latency_set])

lemma init_send: "error_follows init_failed st X \<Longrightarrow> error_follows init_failed st (mpsse_send_byte d X)"
  by (rule error_follows_trans [OF _ send_byte_init])

lemma mpsse_init_follows:
  "error_follows init_failed st0 (snd (mpsse_init cmds ifnum' devstr' clkdiv' st0))"
  unfolding mpsse_init_def Let_def
  apply (rule init_unchecked [where c = Ftdi_init], simp add: init_failed_def)
  apply (rule init_unchecked [where c = "Ftdi_set_interface
           (if ifnum' = 0 then INTERFACE_A else if ifnum' = 1 then INTERFACE_B
            else if ifnum' = 2 then INTERFACE_C else if ifnum' = 3 then INTERFACE_D
            else INTERFACE_A)"], simp add: init_failed_def)
  apply (rule init_open)
  apply (rule init_update_open)
  apply (rule init_step, simp add: init_failed_def)
  apply (rule init_step, simp add: init_failed_def)
  apply (rule init_step_latency)
  apply (rule init_step, simp add: init_failed_def)
  apply (rule init_update_latency_set)
  apply (rule init_step, simp add: init_failed_def)
  apply (rule init_step, simp add: init_failed_def)
  apply (simp only: snd_conv)
  apply (intro init_send)
  apply (rule error_follows_refl)
  done

lemma mpsse_xfer_after_error:
  "mpsse_error_last st \<noteq> 0 \<Longrightarrow> mpsse_xfer buf s r st = Some (buf, st)"
  by (simp add: mpsse_xfer_def)

lemma mpsse_xfer_write_fails:
  assumes "mpsse_error_last st = 0" "s \<noteq> 0"
    and "rc (ftdi_replies st (length (ftdi_calls st))) \<noteq> int s"
  shows "mpsse_xfer buf s r st =
           Some (buf, mpsse_error 2 (st\<lparr>ftdi_calls := ftdi_calls st @ [Ftdi_write_data (take s buf)]\<rparr>))"
  using assms by (simp add: mpsse_xfer_def ftdi_write_data_def ftdi_def Let_def)

lemma mpsse_xfer_first_read_fails:
  assumes "mpsse_error_last st = 0" "r \<noteq> 0"
    and "rc (ftdi_replies st (length (ftdi_calls st))) < 0"
  shows "mpsse_xfer buf 0 r st =
           Some (buf, mpsse_error 2 (st\<lparr>ftdi_calls := ftdi_calls st @ [Ftdi_read_data (int r)]\<rparr>))"
  using assms
  by (simp add: mpsse_xfer_def mpsse_xfer_receive.simps [of r 0] ftdi_read_data_def ftdi_def Let_def)

lemma error_follows_sticky:
  "error_follows test st st' \<Longrightarrow> mpsse_error_last st \<noteq> 0 \<Longrightarrow> mpsse_error_last st' \<noteq> 0"
  by (auto simp add: error_follows_def split: if_splits)

text \<open>C4, as the code has it. \<^verbatim>\<open>mpsse_error\<close> records its status in \<^verbatim>\<open>mpsse_error_last\<close>,
  and while the field is not zero every \<^verbatim>\<open>mpsse_xfer\<close> is a no-op: it calls nothing in
  libftdi, changes no state and leaves the caller's buffer exactly as it was passed, so the
  buffer is not zeroed. The field is set where mpsse.c tests a return code and calls
  \<^verbatim>\<open>mpsse_error(2)\<close>, and nowhere else. Across \<^verbatim>\<open>mpsse_xfer\<close> (on a buffer that holds
  the bytes to send), \<^verbatim>\<open>mpsse_send_byte\<close> and \<^verbatim>\<open>mpsse_recv_byte\<close> it becomes 2 when a write
  has returned another count than the bytes passed or a read, the first or a later one, has
  returned a negative code, and stays what it was otherwise. Across \<^verbatim>\<open>mpsse_init\<close> the same
  holds with the tests of the open, the reset, the purge, the latency timer and the bit mode
  added, while \<^verbatim>\<open>ftdi_init\<close>, \<^verbatim>\<open>ftdi_set_interface\<close> and the open of the first default
  device set nothing. \<^verbatim>\<open>mpsse_close\<close> and \<^verbatim>\<open>mpsse_check_rx\<close> leave the field as it is
  whatever their calls return. A transfer returns as soon as the library fails, and so does
  \<^verbatim>\<open>mpsse_recv_byte\<close>, whose reads are every second call. Nothing resets the field.\<close>

theorem mpsse_error_is_sticky:
  "mpsse_error_last (mpsse_error status st) = status
   \<and> (mpsse_error_last st = 0 \<and> s \<noteq> 0 \<and> rc (ftdi_replies st (length (ftdi_calls st))) \<noteq> int s \<longrightarrow>
        (\<exists>st'. mpsse_xfer buf s r st = Some (buf, st') \<and> mpsse_error_last st' = 2))
   \<and> (mpsse_error_last st = 0 \<and> r \<noteq> 0 \<and> rc (ftdi_replies st (length (ftdi_calls st))) < 0 \<longrightarrow>
        (\<exists>st'. mpsse_xfer buf 0 r st = Some (buf, st') \<and> mpsse_error_last st' = 2))
   \<and> (mpsse_error_last st \<noteq> 0 \<longrightarrow> mpsse_xfer buf s r st = Some (buf, st))
   \<and> (s \<le> length buf \<and> mpsse_xfer buf s r st = Some (buf', st') \<longrightarrow>
        error_follows io_failed st st')
   \<and> (length (ftdi_calls st) \<le> n \<and> rc (ftdi_replies st n) < 0 \<longrightarrow>
        mpsse_xfer buf s r st \<noteq> None)
   \<and> error_follows io_failed st (mpsse_send_byte d st)
   \<and> (mpsse_recv_byte st = Some (b, st') \<longrightarrow> error_follows io_failed st st')
   \<and> (rc (ftdi_replies st (length (ftdi_calls st) + 2 * k)) < 0 \<longrightarrow> mpsse_recv_byte st \<noteq> None)
   \<and> error_follows init_failed st (snd (mpsse_init cmds ifnum' devstr' clkdiv' st))
   \<and> mpsse_error_last (mpsse_close st) = mpsse_error_last st
   \<and> mpsse_error_last (mpsse_check_rx st) = mpsse_error_last st
   \<and> (error_follows test st st' \<and> mpsse_error_last st \<noteq> 0 \<longrightarrow> mpsse_error_last st' \<noteq> 0)"
proof (intro conjI impI)
  show "mpsse_error_last (mpsse_error status st) = status"
    by (rule mpsse_error_last_mpsse_error)
  show "\<exists>st'. mpsse_xfer buf s r st = Some (buf, st') \<and> mpsse_error_last st' = 2"
    if "mpsse_error_last st = 0 \<and> s \<noteq> 0 \<and> rc (ftdi_replies st (length (ftdi_calls st))) \<noteq> int s"
    using that by (simp add: mpsse_xfer_write_fails)
  show "\<exists>st'. mpsse_xfer buf 0 r st = Some (buf, st') \<and> mpsse_error_last st' = 2"
    if "mpsse_error_last st = 0 \<and> r \<noteq> 0 \<and> rc (ftdi_replies st (length (ftdi_calls st))) < 0"
    using that by (simp add: mpsse_xfer_first_read_fails)
  show "mpsse_xfer buf s r st = Some (buf, st)" if "mpsse_error_last st \<noteq> 0"
    using that by (rule mpsse_xfer_after_error)
  show "error_follows io_failed st st'"
    if "s \<le> length buf \<and> mpsse_xfer buf s r st = Some (buf', st')"
    using that by (auto intro: mpsse_xfer_follows)
  show "mpsse_xfer buf s r st \<noteq> None"
    if "length (ftdi_calls st) \<le> n \<and> rc (ftdi_replies st n) < 0"
    using that mpsse_xfer_returns [of st n buf s r] by simp
  show "error_follows io_failed st (mpsse_send_byte d st)"
    by (rule mpsse_send_byte_follows) simp
  show "error_follows io_failed st st'" if "mpsse_recv_byte st = Some (b, st')"
    using that by (rule mpsse_recv_byte_follows)
  show "mpsse_recv_byte st \<noteq> None"
    if "rc (ftdi_replies st (length (ftdi_calls st) + 2 * k)) < 0"
    using that by (rule mpsse_recv_byte_returns)
  show "error_follows init_failed st (snd (mpsse_init cmds ifnum' devstr' clkdiv' st))"
    by (rule mpsse_init_follows)
  show "mpsse_error_last (mpsse_close st) = mpsse_error_last st"
    by (rule mpsse_error_last_mpsse_close)
  show "mpsse_error_last (mpsse_check_rx st) = mpsse_error_last st"
    by (simp add: mpsse_check_rx_def mpsse_error_last_mpsse_check_rx_loop)
  show "mpsse_error_last st' \<noteq> 0"
    if "error_follows test st st' \<and> mpsse_error_last st \<noteq> 0"
    using that error_follows_sticky [of test st st'] by simp
qed

lemma failed_write_state:
  "mpsse_xfer [0x3C] 1 1 (open_transport failing_lib) = Some ([0x3C], failed_transport)"
  by (simp add: mpsse_xfer_def ftdi_write_data_def ftdi_def Let_def open_transport_def
      failing_lib_def mpsse_error_def failed_transport_def)

lemma failed_read_state:
  "mpsse_xfer [0x3C] 1 1 (open_transport read_failing_lib) = Some ([0x3C], read_failed_transport)"
  by (simp add: mpsse_xfer_def ftdi_write_data_def ftdi_def Let_def open_transport_def
      read_failing_lib_def mpsse_error_def read_failed_transport_def
      mpsse_xfer_receive.simps [of "Suc 0" 0] ftdi_read_data_def)

lemma failed_receive_state:
  "mpsse_recv_byte (open_transport failing_lib) = Some (0, failed_receive)"
  by (subst mpsse_recv_byte.simps)
     (simp add: ftdi_read_data_def ftdi_def Let_def open_transport_def failing_lib_def
        mpsse_error_def failed_receive_def)

lemma second_device_init:
  "mpsse_init example_commands 0 None 1 (closed_transport second_device_lib) = (0, ready_transport)"
  by (simp add: mpsse_init_def ftdi_def Let_def mpsse_send_byte_def ftdi_write_data_def
      ftdi_get_latency_timer_def closed_transport_def second_device_lib_def
      example_commands_def ready_transport_def)

lemma answered_read_failed:
  "answered (open_transport read_failing_lib) read_failed_transport =
     [(Ftdi_write_data [0x3C], 1), (Ftdi_read_data 1, - 1), (Ftdi_set_latency_timer 16, - 1),
      (Ftdi_usb_close, - 1), (Ftdi_deinit, - 1)]"
  by (simp add: answered_def open_transport_def read_failed_transport_def read_failing_lib_def
      upt_rec)

theorem mpsse_error_is_sticky_witness:
  "(\<exists>st'. mpsse_xfer [0x3C] 1 1 (open_transport failing_lib) = Some ([0x3C], st') \<and>
          mpsse_error_last st' = 2 \<and>
          mpsse_xfer [0x05, 0x00] 2 2 st' = Some ([0x05, 0x00], st'))
   \<and> (\<exists>st'. mpsse_xfer [0x00] 0 1 (open_transport failing_lib) = Some ([0x00], st') \<and>
          mpsse_error_last st' = 2)
   \<and> mpsse_xfer [0x3C] 1 1 (open_transport read_failing_lib) = Some ([0x3C], read_failed_transport)
   \<and> error_follows io_failed (open_transport read_failing_lib) read_failed_transport
   \<and> list_ex io_failed (answered (open_transport read_failing_lib) read_failed_transport)
   \<and> mpsse_error_last read_failed_transport = 2
   \<and> mpsse_recv_byte (open_transport failing_lib) = Some (0, failed_receive)
   \<and> error_follows io_failed (open_transport failing_lib) failed_receive
   \<and> mpsse_error_last failed_receive = 2
   \<and> mpsse_error_last (mpsse_send_byte 0 failed_receive) \<noteq> 0"
proof -
  let ?st = "open_transport failing_lib"
  let ?rd = "open_transport read_failing_lib"
  have h: "mpsse_error_last ?st = 0" "(1::nat) \<noteq> 0"
    "rc (ftdi_replies ?st (length (ftdi_calls ?st))) \<noteq> int 1"
    "rc (ftdi_replies ?st (length (ftdi_calls ?st))) < 0"
    by (simp_all add: open_transport_def failing_lib_def)
  from mpsse_error_is_sticky [of 2 ?st 1 "[0x3C]" 1] h
  obtain st' where 1: "mpsse_xfer [0x3C] 1 1 ?st = Some ([0x3C], st')" "mpsse_error_last st' = 2"
    by blast
  from mpsse_error_is_sticky [of 2 st' 2 "[0x05, 0x00]" 2] 1(2)
  have 2: "mpsse_xfer [0x05, 0x00] 2 2 st' = Some ([0x05, 0x00], st')" by simp
  from mpsse_error_is_sticky [of 2 ?st 1 "[0x00]" 1] h
  obtain st'' where 3: "mpsse_xfer [0x00] 0 1 ?st = Some ([0x00], st'')" "mpsse_error_last st'' = 2"
    by blast
  have x: "mpsse_xfer [0x3C] 1 1 ?rd = Some ([0x3C], read_failed_transport)"
    by (rule failed_read_state)
  have "length (ftdi_calls ?rd) \<le> 1" "rc (ftdi_replies ?rd 1) < 0"
    by (simp_all add: open_transport_def read_failing_lib_def)
  with mpsse_error_is_sticky [where st = ?rd and n = 1 and buf = "[0x3C]" and s = 1 and r = 1]
  have "mpsse_xfer [0x3C] 1 1 ?rd \<noteq> None" by blast
  from mpsse_error_is_sticky
    [where st = ?rd and buf = "[0x3C]" and s = 1 and r = 1 and buf' = "[0x3C]"
       and st' = read_failed_transport] x
  have 4: "error_follows io_failed ?rd read_failed_transport" by simp
  have 5: "list_ex io_failed (answered ?rd read_failed_transport)"
    by (simp add: answered_read_failed)
  from 4 5 have 6: "mpsse_error_last read_failed_transport = 2"
    by (simp add: error_follows_def)
  have y: "mpsse_recv_byte ?st = Some (0, failed_receive)"
    by (rule failed_receive_state)
  have "rc (ftdi_replies ?st (length (ftdi_calls ?st) + 2 * 0)) < 0"
    by (simp add: open_transport_def failing_lib_def)
  with mpsse_error_is_sticky [where st = ?st and k = 0]
  have "mpsse_recv_byte ?st \<noteq> None" by blast
  from mpsse_error_is_sticky [where st = ?st and b = 0 and st' = failed_receive] y
  have 7: "error_follows io_failed ?st failed_receive" by simp
  have 8: "mpsse_error_last failed_receive = 2"
    by (simp add: failed_receive_def)
  from mpsse_error_is_sticky [where st = failed_receive and d = 0]
  have "error_follows io_failed failed_receive (mpsse_send_byte 0 failed_receive)" by simp
  with mpsse_error_is_sticky
    [where st = failed_receive and test = io_failed and st' = "mpsse_send_byte 0 failed_receive"] 8
  have 9: "mpsse_error_last (mpsse_send_byte 0 failed_receive) \<noteq> 0" by simp
  from 1 2 3 x 4 5 6 y 7 8 9 show ?thesis by blast
qed

text \<open>After a failed write the next transfer hands its buffer back as it was passed: the
  command byte is still there, the buffer is not zeroed. And not every error of the library
  reaches the field: where only the second default device is present, the open of the first
  returns an error, \<^verbatim>\<open>mpsse_init\<close> opens the second and returns 0 with the field still 0,
  and the next transfer does write to the device.\<close>

theorem sticky_xfer_leaves_buffer_counterexample:
  "mpsse_xfer [0x3C] 1 1 (open_transport failing_lib) = Some ([0x3C], failed_transport)
   \<and> mpsse_error_last failed_transport = 2
   \<and> mpsse_xfer [0x3C] 1 1 failed_transport = Some ([0x3C], failed_transport)
   \<and> [0x3C :: u8] \<noteq> [0x00]
   \<and> mpsse_init example_commands 0 None 1 (closed_transport second_device_lib) = (0, ready_transport)
   \<and> ftdi_calls ready_transport ! 2 = Ftdi_usb_open 0x0403 0x6010
   \<and> rc (second_device_lib 2) = - 3
   \<and> mpsse_error_last ready_transport = 0
   \<and> mpsse_xfer [0x3C] 1 0 ready_transport =
       Some ([0x3C], ready_transport\<lparr>ftdi_calls := ftdi_calls ready_transport @ [Ftdi_write_data [0x3C]]\<rparr>)"
proof (intro conjI)
  show "mpsse_xfer [0x3C] 1 1 (open_transport failing_lib) = Some ([0x3C], failed_transport)"
    by (rule failed_write_state)
  show "mpsse_error_last failed_transport = 2"
    by (simp add: failed_transport_def)
  show "mpsse_xfer [0x3C] 1 1 failed_transport = Some ([0x3C], failed_transport)"
    by (simp add: mpsse_xfer_def failed_transport_def)
  show "[0x3C :: u8] \<noteq> [0x00]"
    by simp
  show "mpsse_init example_commands 0 None 1 (closed_transport second_device_lib) = (0, ready_transport)"
    by (rule second_device_init)
  show "ftdi_calls ready_transport ! 2 = Ftdi_usb_open 0x0403 0x6010"
    by (simp add: ready_transport_def)
  show "rc (second_device_lib 2) = - 3"
    by (simp add: second_device_lib_def)
  show "mpsse_error_last ready_transport = 0"
    by (simp add: ready_transport_def)
  show "mpsse_xfer [0x3C] 1 0 ready_transport =
       Some ([0x3C], ready_transport\<lparr>ftdi_calls := ftdi_calls ready_transport @ [Ftdi_write_data [0x3C]]\<rparr>)"
    by (simp add: mpsse_xfer_def ftdi_write_data_def ftdi_def ready_transport_def
        second_device_lib_def)
qed

section \<open>SRAM programming\<close>


lemma chunks_of_Nil [simp]: "chunks_of n [] = []"
  by (simp add: chunks_of.simps)

lemma chunks_of_step: "0 < n \<Longrightarrow> xs \<noteq> [] \<Longrightarrow> chunks_of n xs = take n xs # chunks_of n (drop n xs)"
  by (subst chunks_of.simps) simp

lemma reverse_bytes_all [simp]: "length b \<le> n \<Longrightarrow> reverse_bytes n b = map bit_reverse b"
  by (simp add: reverse_bytes_def)

lemma nat_int_times [simp]: "nat (int n * 8) = n * 8"
  by (simp add: nat_mult_distrib)

lemma bits_to_bytes [simp]: "(n * 8 + 7) div 8 = (n :: nat)"
  by simp

lemma sram_chunk_trace:
  "trace (sram_chunk c st) =
     trace st @ [Jtag_go_to_state STATE_CAPTURE_DR,
                 Jtag_tap_shift (map bit_reverse c) (length c * 8) False]"
  by (simp add: sram_chunk_def jtag_tap_shift_def jtag_go_to_state_def emit_def Let_def)

lemma sram_loop_fold: "sram_loop f st = fold sram_chunk (chunks_of 16384 f) st"
proof (induction f arbitrary: st rule: length_induct)
  case (1 f)
  show ?case
  proof (cases "f = []")
    case True
    then show ?thesis by (subst sram_loop.simps) simp
  next
    case False
    have step: "sram_loop f st = sram_loop (drop 16384 f) (sram_chunk (take 16384 f) st)"
      using False
      by (subst sram_loop.simps) (simp add: Let_def sram_chunk_def split_def)
    from False have "length (drop 16384 f) < length f" by simp
    with 1 have "sram_loop (drop 16384 f) (sram_chunk (take 16384 f) st) =
          fold sram_chunk (chunks_of 16384 (drop 16384 f)) (sram_chunk (take 16384 f) st)"
      by blast
    with step False show ?thesis by (simp add: chunks_of_step)
  qed
qed


lemma concat_chunks_of: "0 < n \<Longrightarrow> concat (chunks_of n xs) = xs"
proof (induction xs rule: length_induct)
  case (1 xs)
  show ?case
  proof (cases "xs = []")
    case True
    then show ?thesis by simp
  next
    case False
    with 1(2) have "length (drop n xs) < length xs" by simp
    with 1 have "concat (chunks_of n (drop n xs)) = drop n xs" by blast
    with False 1(2) show ?thesis by (simp add: chunks_of_step)
  qed
qed

lemma chunks_of_sizes: "0 < n \<Longrightarrow> c \<in> set (chunks_of n xs) \<Longrightarrow> 0 < length c \<and> length c \<le> n"
proof (induction xs rule: length_induct)
  case (1 xs)
  show ?case
  proof (cases "xs = []")
    case True
    with 1(3) show ?thesis by simp
  next
    case False
    with 1(2) have less: "length (drop n xs) < length xs" by simp
    from 1(3) False 1(2) consider "c = take n xs" | "c \<in> set (chunks_of n (drop n xs))"
      by (auto simp add: chunks_of_step)
    then show ?thesis
    proof cases
      case 1
      with False \<open>0 < n\<close> show ?thesis by simp
    next
      case 2
      with 1(1) less \<open>0 < n\<close> show ?thesis by blast
    qed
  qed
qed

lemma chunks_of_full:
  "0 < n \<Longrightarrow> Suc i < length (chunks_of n xs) \<Longrightarrow> length (chunks_of n xs ! i) = n"
proof (induction xs arbitrary: i rule: length_induct)
  case (1 xs)
  from 1(3) have ne: "xs \<noteq> []" by auto
  with 1(2) have less: "length (drop n xs) < length xs" by simp
  from ne 1(2) have eq: "chunks_of n xs = take n xs # chunks_of n (drop n xs)"
    by (rule chunks_of_step [OF _ _, rotated]) 
  show ?case
  proof (cases i)
    case 0
    from 1(3) eq have "chunks_of n (drop n xs) \<noteq> []" by auto
    then have "drop n xs \<noteq> []" by auto
    then have "n < length xs" by simp
    with 0 eq show ?thesis by simp
  next
    case (Suc j)
    with 1(3) eq have "Suc j < length (chunks_of n (drop n xs))" by simp
    with 1(1) less 1(2) have "length (chunks_of n (drop n xs) ! j) = n" by blast
    with Suc eq show ?thesis by simp
  qed
qed

text \<open>C6, as the code has it. In SRAM mode, after LSC_BITSTREAM_BURST, the file is
  streamed in chunks of 16 KiB, the last one shorter when the size is no multiple; each
  chunk is bit-reversed and shifted after a move to Capture-DR, with \<^verbatim>\<open>must_end\<close> false
  for every chunk, the last one included; then come ISC_DISABLE and a status read.\<close>

theorem sram_stream_keeps_shifting:
  "sram_pass f st =
     read_status_register
       (ecp_jtag_cmd ISC_DISABLE
         (fold sram_chunk (chunks_of 16384 f)
           (ecp_jtag_cmd LSC_BITSTREAM_BURST
             (read_status_register
               (ecp_jtag_cmd8 LSC_RESET_CRC 0
                 (ecp_jtag_cmd8 ISC_ERASE 0 (ecp_jtag_cmd8 ISC_ENABLE 0 st)))))))
   \<and> trace (sram_chunk c st') =
       trace st' @ [Jtag_go_to_state STATE_CAPTURE_DR,
                    Jtag_tap_shift (map bit_reverse c) (length c * 8) False]
   \<and> concat (chunks_of 16384 f) = f
   \<and> (\<forall>c \<in> set (chunks_of 16384 f). 0 < length c \<and> length c \<le> 16384)
   \<and> (\<forall>i. Suc i < length (chunks_of 16384 f) \<longrightarrow> length (chunks_of 16384 f ! i) = 16384)"
proof (intro conjI ballI allI impI)
  show "sram_pass f st =
     read_status_register
       (ecp_jtag_cmd ISC_DISABLE
         (fold sram_chunk (chunks_of 16384 f)
           (ecp_jtag_cmd LSC_BITSTREAM_BURST
             (read_status_register
               (ecp_jtag_cmd8 LSC_RESET_CRC 0
                 (ecp_jtag_cmd8 ISC_ERASE 0 (ecp_jtag_cmd8 ISC_ENABLE 0 st)))))))"
    by (simp add: sram_pass_def Let_def sram_loop_fold)
  show "trace (sram_chunk c st') =
       trace st' @ [Jtag_go_to_state STATE_CAPTURE_DR,
                    Jtag_tap_shift (map bit_reverse c) (length c * 8) False]"
    by (rule sram_chunk_trace)
  show "concat (chunks_of 16384 f) = f"
    by (rule concat_chunks_of) simp
  show "0 < length c" if "c \<in> set (chunks_of 16384 f)" for c
    using chunks_of_sizes [OF _ that] by simp
  show "length c \<le> 16384" if "c \<in> set (chunks_of 16384 f)" for c
    using chunks_of_sizes [OF _ that] by simp
  show "length (chunks_of 16384 f ! i) = 16384" if "Suc i < length (chunks_of 16384 f)" for i
    using chunks_of_full [OF _ that] by simp
qed

lemma chunks_of_one_byte: "chunks_of 16384 [b] = [[b]]"
  by (simp add: chunks_of_step)

lemma bit_reverse_one: "bit_reverse 0x01 = 0x80"
  by (simp add: bit_reverse_def)

theorem sram_stream_keeps_shifting_witness:
  "[0x01] \<in> set (chunks_of 16384 [0x01 :: u8])
   \<and> length [0x01 :: u8] \<le> 16384
   \<and> trace (sram_chunk [0x01] (boot_state empty_chain)) =
       [Jtag_go_to_state STATE_CAPTURE_DR, Jtag_tap_shift [0x80] 8 False]
   \<and> Suc 0 < length (chunks_of 16384 (replicate 16385 (0x01 :: u8)))
   \<and> length (chunks_of 16384 (replicate 16385 (0x01 :: u8)) ! 0) = 16384"
proof -
  have m: "[0x01] \<in> set (chunks_of 16384 [0x01 :: u8])"
    by (simp add: chunks_of_one_byte)
  have two: "Suc 0 < length (chunks_of 16384 (replicate 16385 (0x01 :: u8)))"
    by (simp add: chunks_of_step)
  note t = sram_stream_keeps_shifting [of "[0x01]" "boot_state empty_chain" "[0x01]"
      "boot_state empty_chain"]
  note t2 = sram_stream_keeps_shifting [of "replicate 16385 (0x01 :: u8)" "boot_state empty_chain"
      "[0x01]" "boot_state empty_chain"]
  from t m have "length [0x01 :: u8] \<le> 16384" by blast
  moreover from t have "trace (sram_chunk [0x01] (boot_state empty_chain)) =
       [Jtag_go_to_state STATE_CAPTURE_DR, Jtag_tap_shift [0x80] 8 False]"
    by (simp add: boot_state_def bit_reverse_one)
  moreover from t2 two have "length (chunks_of 16384 (replicate 16385 (0x01 :: u8)) ! 0) = 16384"
    by blast
  ultimately show ?thesis using m two by blast
qed

text \<open>A file of one byte is one chunk, the last one, and it is shifted with \<^verbatim>\<open>must_end\<close>
  false.\<close>

theorem sram_last_chunk_counterexample:
  "trace (sram_loop [0x01] (boot_state empty_chain)) =
     [Jtag_go_to_state STATE_CAPTURE_DR, Jtag_tap_shift [0x80] 8 False]
   \<and> last (trace (sram_loop [0x01] (boot_state empty_chain))) \<noteq> Jtag_tap_shift [0x80] 8 True"
  by (simp add: sram_loop_fold chunks_of_one_byte sram_chunk_trace boot_state_def bit_reverse_one)

section \<open>The programming loop\<close>

lemma full_pages_Nil [simp]: "full_pages a [] = []"
  by (simp add: full_pages.simps)

lemma full_pages_step: "d \<noteq> [] \<Longrightarrow> full_pages a d = (a, take 256 d) # full_pages (a + 256) (drop 256 d)"
  by (subst full_pages.simps) simp

lemma prog_loop_Nil [simp]: "prog_loop offset addr [] st = Some st"
  by (subst prog_loop.simps) simp

lemma smod_nonneg: "0 \<le> a \<Longrightarrow> a smod 256 = a mod (256 :: int)"
  by (simp add: smod_int_alt_def sgn_if)

lemma prog_loop_step:
  assumes "0 \<le> offset + addr" "f \<noteq> []"
  shows "prog_loop offset addr f st =
           Option.bind (page_cycle (offset + addr, take (nat (256 - (offset + addr) mod 256)) f) st)
             (prog_loop offset (addr + int (length (take (nat (256 - (offset + addr) mod 256)) f)))
                (drop (nat (256 - (offset + addr) mod 256)) f))"
proof -
  have "0 < nat (256 - (offset + addr) mod 256)"
    using pos_mod_bound [of 256 "offset + addr"] by simp
  with assms(2) have "take (nat (256 - (offset + addr) mod 256)) f \<noteq> []" by simp
  then show ?thesis
    using assms(1)
    by (subst prog_loop.simps) (simp add: Let_def smod_nonneg page_cycle_def split_def)
qed

lemma prog_loop_aligned:
  "0 \<le> offset + addr \<Longrightarrow> (offset + addr) mod 256 = 0 \<Longrightarrow>
   prog_loop offset addr f st = fold_option page_cycle (full_pages (offset + addr) f) st"
proof (induction f arbitrary: addr st rule: length_induct)
  case (1 f)
  show ?case
  proof (cases "f = []")
    case True
    then show ?thesis by simp
  next
    case False
    from prog_loop_step [OF 1(2) False, of st] 1(3)
    have step: "prog_loop offset addr f st =
        Option.bind (page_cycle (offset + addr, take 256 f) st)
          (prog_loop offset (addr + int (length (take 256 f))) (drop 256 f))"
      by simp
    have rest: "prog_loop offset (addr + int (length (take 256 f))) (drop 256 f) st' =
          fold_option page_cycle (full_pages (offset + addr + 256) (drop 256 f)) st'" for st'
    proof (cases "drop 256 f = []")
      case True
      then show ?thesis by simp
    next
      case d: False
      then have len: "min (length f) 256 = 256" by simp
      from False have less: "length (drop 256 f) < length f" by simp
      have "prog_loop offset (addr + 256) (drop 256 f) st' =
          fold_option page_cycle (full_pages (offset + (addr + 256)) (drop 256 f)) st'"
        using 1(1) less 1(2) 1(3) by (auto simp add: add.assoc [symmetric])
      then show ?thesis by (simp add: len add.assoc)
    qed
    have rest_fun: "prog_loop offset (addr + int (length (take 256 f))) (drop 256 f) =
          fold_option page_cycle (full_pages (offset + addr + 256) (drop 256 f))"
      by (rule ext) (fact rest)
    show ?thesis
      using False by (simp only: step rest_fun) (simp add: full_pages_step)
  qed
qed


lemma prog_loop_split:
  assumes "0 \<le> offset"
  shows "prog_loop offset 0 f st = fold_option page_cycle (spec_page_split offset f) st"
proof (cases "f = []")
  case True
  then show ?thesis by (simp add: spec_page_split_def)
next
  case False
  let ?first = "nat (256 - offset mod 256)"
  have first: "0 < ?first" "offset mod 256 < 256" "0 \<le> offset mod 256"
    using pos_mod_bound [of 256 offset] by simp_all
  from prog_loop_step [of offset 0 f st] assms False
  have step: "prog_loop offset 0 f st =
      Option.bind (page_cycle (offset, take ?first f) st)
        (prog_loop offset (int (length (take ?first f))) (drop ?first f))"
    by simp
  have rest: "prog_loop offset (int (length (take ?first f))) (drop ?first f) st' =
        fold_option page_cycle (full_pages (offset + int ?first) (drop ?first f)) st'" for st'
  proof (cases "drop ?first f = []")
    case True
    then show ?thesis by simp
  next
    case d: False
    then have len: "length (take ?first f) = ?first" by simp
    have "offset + int ?first = 256 * (offset div 256 + 1)"
      using first by (simp add: algebra_simps minus_mod_eq_mult_div [symmetric])
    then have "(offset + int ?first) mod 256 = 0"
      by (simp only: mod_mult_self1_is_0)
    moreover have "0 \<le> offset + int ?first" using assms by simp
    ultimately show ?thesis
      using prog_loop_aligned [of offset "int ?first" "drop ?first f" st'] by (simp only: len)
  qed
  have rest_fun: "prog_loop offset (int (length (take ?first f))) (drop ?first f) =
        fold_option page_cycle (full_pages (offset + int ?first) (drop ?first f))"
    by (rule ext) (fact rest)
  show ?thesis
    using False by (simp only: step rest_fun) (simp add: spec_page_split_def Let_def)
qed


lemma page_bytes_append:
  "page_bytes a (xs @ ys) = page_bytes a xs @ page_bytes (a + int (length xs)) ys"
proof -
  have "[0..<length xs + length ys] = [0..<length xs] @ [length xs..<length xs + length ys]"
    using upt_add_eq_append [of 0 "length xs" "length ys"] by simp
  moreover have "map (\<lambda>k. k + length xs) [0..<length ys] = [length xs..<length ys + length xs]"
    by (rule map_add_upt)
  ultimately have 1: "[0..<length xs + length ys] =
      [0..<length xs] @ map (\<lambda>k. k + length xs) [0..<length ys]"
    by (simp only: add.commute)
  have 2: "map (\<lambda>k. a + int k) (map (\<lambda>k. k + length xs) [0..<length ys]) =
      map (\<lambda>k. a + int (length xs) + int k) [0..<length ys]"
    by simp
  have "page_bytes a (xs @ ys) =
      zip (map (\<lambda>k. a + int k) [0..<length xs] @
           map (\<lambda>k. a + int (length xs) + int k) [0..<length ys]) (xs @ ys)"
    by (simp only: page_bytes_def length_append 1 map_append 2)
  also have "\<dots> = page_bytes a xs @ page_bytes (a + int (length xs)) ys"
    by (simp add: page_bytes_def)
  finally show ?thesis .
qed

lemma page_bytes_take_drop:
  "page_bytes a (take n d) @ page_bytes (a + int (length (take n d))) (drop n d) = page_bytes a d"
  using page_bytes_append [of a "take n d" "drop n d"] by simp

lemma written_full_pages: "written_bytes (full_pages a d) = page_bytes a d"
proof (induction d arbitrary: a rule: length_induct)
  case (1 d)
  show ?case
  proof (cases "d = []")
    case True
    then show ?thesis by (simp add: written_bytes_def page_bytes_def)
  next
    case False
    then have less: "length (drop 256 d) < length d" by simp
    have tail: "written_bytes (full_pages (a + 256) (drop 256 d)) = page_bytes (a + 256) (drop 256 d)"
      using 1 less by blast
    show ?thesis
    proof (cases "drop 256 d = []")
      case True
      with False show ?thesis by (simp add: full_pages_step written_bytes_def)
    next
      case d: False
      then have "length (take 256 d) = 256" by simp
      with page_bytes_take_drop [of a 256 d]
      have "page_bytes a (take 256 d) @ page_bytes (a + 256) (drop 256 d) = page_bytes a d"
        by simp
      with tail False show ?thesis
        by (simp add: full_pages_step written_bytes_def)
    qed
  qed
qed

lemma written_spec_page_split: "written_bytes (spec_page_split offset f) = page_bytes offset f"
proof (cases "f = []")
  case True
  then show ?thesis by (simp add: spec_page_split_def written_bytes_def page_bytes_def)
next
  case False
  let ?first = "nat (256 - offset mod 256)"
  have tail: "written_bytes (full_pages (offset + int ?first) (drop ?first f)) =
      page_bytes (offset + int ?first) (drop ?first f)"
    by (rule written_full_pages)
  show ?thesis
  proof (cases "drop ?first f = []")
    case True
    with False show ?thesis by (simp add: spec_page_split_def written_bytes_def Let_def)
  next
    case d: False
    then have "length (take ?first f) = ?first" by simp
    with page_bytes_take_drop [of offset ?first f]
    have "page_bytes offset (take ?first f) @ page_bytes (offset + int ?first) (drop ?first f) =
        page_bytes offset f"
      by simp
    with tail False show ?thesis
      by (simp add: spec_page_split_def written_bytes_def Let_def)
  qed
qed

lemma full_pages_members:
  "p \<in> set (full_pages a d) \<Longrightarrow> a mod 256 = 0 \<Longrightarrow>
   fst p mod 256 = 0 \<and> snd p \<noteq> [] \<and> length (snd p) \<le> 256"
proof (induction d arbitrary: a rule: length_induct)
  case (1 d)
  from 1(2) have ne: "d \<noteq> []" by auto
  then have less: "length (drop 256 d) < length d" by simp
  from 1(2) ne consider "p = (a, take 256 d)" | "p \<in> set (full_pages (a + 256) (drop 256 d))"
    by (auto simp add: full_pages_step)
  then show ?case
  proof cases
    case 1
    with ne \<open>a mod 256 = 0\<close> show ?thesis by simp
  next
    case 2
    from \<open>a mod 256 = 0\<close> have "(a + 256) mod 256 = 0" by simp
    from 1(1) [rule_format, OF less 2 this] show ?thesis .
  qed
qed

lemma same_page:
  fixes a :: int
  assumes "0 < n" "a mod 256 + n \<le> 256"
  shows "a div 256 = (a + n - 1) div 256"
proof -
  have "a + n - 1 = 256 * (a div 256) + (a mod 256 + n - 1)" by simp
  moreover have "0 \<le> a mod 256 + n - 1" "a mod 256 + n - 1 < 256"
    using assms pos_mod_sign [of 256 a] by simp_all
  ultimately have "(a + n - 1) div 256 = a div 256 + (a mod 256 + n - 1) div 256"
    by (metis div_mult_self2 add.commute zero_neq_numeral)
  with \<open>0 \<le> a mod 256 + n - 1\<close> \<open>a mod 256 + n - 1 < 256\<close> show ?thesis
    by (simp add: div_pos_pos_trivial)
qed

lemma spec_page_split_no_crossing:
  assumes "p \<in> set (spec_page_split offset f)"
  shows "snd p \<noteq> [] \<and> length (snd p) \<le> 256 \<and>
         fst p div 256 = (fst p + int (length (snd p)) - 1) div 256"
proof -
  let ?first = "nat (256 - offset mod 256)"
  have first: "0 < ?first" "int ?first = 256 - offset mod 256" "0 \<le> offset mod 256"
    using pos_mod_bound [of 256 offset] by simp_all
  from assms have ne: "f \<noteq> []" by (auto simp add: spec_page_split_def)
  from assms ne consider "p = (offset, take ?first f)"
    | "p \<in> set (full_pages (offset + int ?first) (drop ?first f))"
    by (auto simp add: spec_page_split_def Let_def)
  then show ?thesis
  proof cases
    case 1
    have "int (length (take ?first f)) \<le> int ?first"
      by (simp only: length_take of_nat_le_iff min.cobounded2)
    with first have "offset mod 256 + int (length (take ?first f)) \<le> 256" by linarith
    moreover from ne first(1) have "0 < int (length (take ?first f))" by simp
    ultimately have "offset div 256 = (offset + int (length (take ?first f)) - 1) div 256"
      by (rule same_page [rotated])
    moreover from ne first(1) have "take ?first f \<noteq> []" by simp
    moreover have "length (take ?first f) \<le> ?first"
      by (simp only: length_take min.cobounded2)
    then have "length (take ?first f) \<le> 256" using first by linarith
    ultimately show ?thesis using 1 by simp
  next
    case 2
    have "offset + int ?first = 256 * (offset div 256 + 1)"
      using first by (simp add: algebra_simps minus_mod_eq_mult_div [symmetric])
    then have "(offset + int ?first) mod 256 = 0"
      by (simp only: mod_mult_self1_is_0)
    from full_pages_members [OF 2 this]
    have m: "fst p mod 256 = 0" "snd p \<noteq> []" "length (snd p) \<le> 256" by simp_all
    then have "fst p div 256 = (fst p + int (length (snd p)) - 1) div 256"
      by (intro same_page) simp_all
    with m show ?thesis by simp
  qed
qed

lemma full_pages_full:
  "Suc i < length (full_pages a d) \<Longrightarrow> length (snd (full_pages a d ! i)) = 256"
proof (induction d arbitrary: a i rule: length_induct)
  case (1 d)
  from 1(2) have ne: "d \<noteq> []" by auto
  then have less: "length (drop 256 d) < length d" by simp
  from ne have eq: "full_pages a d = (a, take 256 d) # full_pages (a + 256) (drop 256 d)"
    by (rule full_pages_step)
  show ?case
  proof (cases i)
    case 0
    from 1(2) eq have "full_pages (a + 256) (drop 256 d) \<noteq> []" by auto
    then have "drop 256 d \<noteq> []" by auto
    then have "256 < length d" by simp
    with 0 eq show ?thesis by simp
  next
    case (Suc j)
    with 1(2) eq have "Suc j < length (full_pages (a + 256) (drop 256 d))" by simp
    with 1(1) less have "length (snd (full_pages (a + 256) (drop 256 d) ! j)) = 256" by blast
    with Suc eq show ?thesis by simp
  qed
qed

lemma spec_page_split_sizes:
  "(f \<noteq> [] \<longrightarrow> length (snd (hd (spec_page_split offset f))) =
                    min (nat (256 - offset mod 256)) (length f))
   \<and> (0 < i \<and> Suc i < length (spec_page_split offset f) \<longrightarrow>
        length (snd (spec_page_split offset f ! i)) = 256)"
proof (intro conjI impI)
  assume "f \<noteq> []"
  then show "length (snd (hd (spec_page_split offset f))) = min (nat (256 - offset mod 256)) (length f)"
    by (simp add: spec_page_split_def Let_def min.commute)
next
  assume a: "0 < i \<and> Suc i < length (spec_page_split offset f)"
  then have ne: "f \<noteq> []" by (auto simp add: spec_page_split_def)
  from a obtain j where j: "i = Suc j" by (cases i) auto
  with a ne have "Suc j < length (full_pages (offset + int (nat (256 - offset mod 256)))
                                  (drop (nat (256 - offset mod 256)) f))"
    by (simp add: spec_page_split_def Let_def)
  from full_pages_full [OF this] ne j
  show "length (snd (spec_page_split offset f ! i)) = 256"
    by (simp add: spec_page_split_def Let_def)
qed


text \<open>C2. For a flash offset that is not negative and any data, the programming loop
  runs one cycle of Write Enable, Page Program and wait for each page of the split, in
  order: the first page is \<open>256 - (offset mod 256)\<close> bytes (or all the data when there is
  less), the pages after it are 256 bytes, the last one is the remainder. Together the page
  programs write each address of \<open>[offset, offset + length)\<close> exactly once, with its byte, and
  no page program crosses a 256-byte boundary.\<close>

theorem programming_loop_splits_at_pages:
  assumes "0 \<le> offset"
  shows "prog_loop offset 0 f st = fold_option page_cycle (spec_page_split offset f) st
       \<and> written_bytes (spec_page_split offset f) = page_bytes offset f
       \<and> (\<forall>p \<in> set (spec_page_split offset f).
             snd p \<noteq> [] \<and> length (snd p) \<le> 256 \<and>
             fst p div 256 = (fst p + int (length (snd p)) - 1) div 256)
       \<and> (f \<noteq> [] \<longrightarrow> length (snd (hd (spec_page_split offset f))) =
                           min (nat (256 - offset mod 256)) (length f))
       \<and> (\<forall>i. 0 < i \<and> Suc i < length (spec_page_split offset f) \<longrightarrow>
                length (snd (spec_page_split offset f ! i)) = 256)"
  using prog_loop_split [OF assms] written_spec_page_split spec_page_split_no_crossing
    spec_page_split_sizes
  by blast

lemma full_pages_last: "d \<noteq> [] \<Longrightarrow> length d \<le> 256 \<Longrightarrow> full_pages a d = [(a, d)]"
  by (simp add: full_pages_step)

lemma split_400_at_100:
  "spec_page_split 100 (replicate 400 b) = [(100, replicate 156 b), (256, replicate 244 b)]"
  by (simp add: spec_page_split_def Let_def full_pages_last)

theorem programming_loop_splits_at_pages_witness:
  "(0 :: int) \<le> 100
   \<and> prog_loop 100 0 (replicate 400 0xAB) (boot_state empty_chain) =
       fold_option page_cycle [(100, replicate 156 0xAB), (256, replicate 244 0xAB)]
         (boot_state empty_chain)
   \<and> written_bytes [(100, replicate 156 0xAB), (256, replicate 244 0xAB)] =
       page_bytes 100 (replicate 400 0xAB)
   \<and> (256 :: int) div 256 = (256 + int (length (replicate 244 (0xAB :: u8))) - 1) div 256"
proof -
  have h: "(0 :: int) \<le> 100" by simp
  have m: "(256, replicate 244 0xAB) \<in> set (spec_page_split 100 (replicate 400 (0xAB :: u8)))"
    by (simp add: split_400_at_100)
  note t = programming_loop_splits_at_pages [OF h, of "replicate 400 0xAB" "boot_state empty_chain"]
  from t have "prog_loop 100 0 (replicate 400 0xAB) (boot_state empty_chain) =
       fold_option page_cycle [(100, replicate 156 0xAB), (256, replicate 244 0xAB)]
         (boot_state empty_chain)"
    by (simp only: split_400_at_100)
  moreover from t have "written_bytes [(100, replicate 156 0xAB), (256, replicate 244 0xAB)] =
       page_bytes 100 (replicate 400 0xAB)"
    by (simp only: split_400_at_100)
  moreover from t m
  have "fst (256 :: int, replicate 244 (0xAB :: u8)) div 256 =
        (fst (256 :: int, replicate 244 (0xAB :: u8)) +
         int (length (snd (256 :: int, replicate 244 (0xAB :: u8)))) - 1) div 256"
    by blast
  then have "(256 :: int) div 256 = (256 + int (length (replicate 244 (0xAB :: u8))) - 1) div 256"
    by (simp only: fst_conv snd_conv)
  ultimately show ?thesis using h by blast
qed

text \<open>Outside the flash address space, at a negative offset, C's remainder is negative and
  the first \<^verbatim>\<open>page_size\<close> exceeds the 256-byte buffer.\<close>

lemma negative_offset_page_size: "256 - (- 5 + 0) smod 256 = (261 :: int)"
  by (simp add: smod_int_alt_def)

section \<open>The erase pass\<close>

lemma and_not_mask_int: "(x :: int) AND NOT (mask n) = x - x mod 2 ^ n"
proof -
  have "x AND NOT (mask n) = push_bit n (drop_bit n x)"
    by (rule bit_eqI) (auto simp add: bit_simps)
  also have "\<dots> = x - take_bit n x"
    using bits_ident [of n x] by simp
  finally show ?thesis by (simp add: take_bit_eq_mod)
qed

lemma block_size_cases:
  "ebs \<in> {4, 32, 64} \<Longrightarrow>
   block_size ebs = ebs * 1024 \<and>
   (\<exists>n. block_size ebs = 2 ^ n \<and> block_mask ebs = mask n) \<and> 0 < block_size ebs \<and>
   block_size ebs \<le> 65536"
proof -
  assume "ebs \<in> {4, 32, 64}"
  then consider "ebs = 4" | "ebs = 32" | "ebs = 64" by blast
  then show ?thesis
  proof cases
    case 1
    then have "block_size ebs = 2 ^ 12" by (simp add: block_size_def push_bit_eq_mult)
    with 1 show ?thesis
      by (auto simp add: block_mask_def mask_eq_exp_minus_1 intro!: exI [of _ 12])
  next
    case 2
    then have "block_size ebs = 2 ^ 15" by (simp add: block_size_def push_bit_eq_mult)
    with 2 show ?thesis
      by (auto simp add: block_mask_def mask_eq_exp_minus_1 intro!: exI [of _ 15])
  next
    case 3
    then have "block_size ebs = 2 ^ 16" by (simp add: block_size_def push_bit_eq_mult)
    with 3 show ?thesis
      by (auto simp add: block_mask_def mask_eq_exp_minus_1 intro!: exI [of _ 16])
  qed
qed

lemma begin_addr_eq:
  assumes "ebs \<in> {4, 32, 64}"
  shows "begin_addr ebs offset = offset - offset mod block_size ebs"
proof -
  from block_size_cases [OF assms] obtain n where
    "block_size ebs = 2 ^ n" "block_mask ebs = mask n" by blast
  then show ?thesis by (simp add: begin_addr_def and_not_mask_int)
qed

lemma end_addr_eq:
  assumes "ebs \<in> {4, 32, 64}" "0 \<le> offset" "0 \<le> fsize"
    and "offset + fsize + block_mask ebs < 2 ^ 31"
  shows "end_addr ebs offset fsize =
           offset + fsize + block_mask ebs - (offset + fsize + block_mask ebs) mod block_size ebs"
proof -
  let ?s = "offset + fsize + block_mask ebs"
  from block_size_cases [OF assms(1)] obtain n where
    n: "block_size ebs = 2 ^ n" "block_mask ebs = mask n" and pos: "0 < block_size ebs" by blast
  have m: "0 \<le> block_mask ebs" using pos by (simp add: block_mask_def)
  have r: "?s AND NOT (block_mask ebs) = ?s - ?s mod block_size ebs"
    using n by (simp add: and_not_mask_int)
  have "0 \<le> ?s mod block_size ebs" "?s mod block_size ebs \<le> ?s"
    using pos assms m by (simp_all add: zmod_le_nonneg_dividend)
  then have "0 \<le> ?s - ?s mod block_size ebs" "?s - ?s mod block_size ebs < 2 ^ 31"
    using assms(4) by simp_all
  then have "signed_take_bit 31 (?s - ?s mod block_size ebs) = ?s - ?s mod block_size ebs"
    by (intro signed_take_bit_int_eq_self) simp_all
  with r show ?thesis by (simp add: end_addr_def)
qed

lemma erase_range_properties:
  assumes "ebs \<in> {4, 32, 64}" "0 \<le> offset" "0 \<le> fsize"
    and "offset + fsize + block_mask ebs < 2 ^ 31"
  shows "begin_addr ebs offset \<le> offset"
    and "offset + fsize \<le> end_addr ebs offset fsize"
    and "block_size ebs dvd begin_addr ebs offset"
    and "block_size ebs dvd end_addr ebs offset fsize"
    and "block_size ebs dvd b' \<Longrightarrow> b' \<le> offset \<Longrightarrow> b' \<le> begin_addr ebs offset"
    and "block_size ebs dvd e' \<Longrightarrow> offset + fsize \<le> e' \<Longrightarrow> end_addr ebs offset fsize \<le> e'"
proof -
  let ?bs = "block_size ebs"
  let ?s = "offset + fsize + block_mask ebs"
  from block_size_cases [OF assms(1)] have pos: "0 < ?bs" by blast
  note b = begin_addr_eq [OF assms(1), of offset]
  note e = end_addr_eq [OF assms]
  have mb: "0 \<le> offset mod ?bs" "offset mod ?bs < ?bs" using pos by simp_all
  have ms: "0 \<le> ?s mod ?bs" "?s mod ?bs < ?bs" using pos by simp_all
  show "begin_addr ebs offset \<le> offset" using b mb by simp
  show "offset + fsize \<le> end_addr ebs offset fsize"
    using e ms by (simp add: block_mask_def)
  show db: "?bs dvd begin_addr ebs offset"
    by (simp add: b minus_mod_eq_mult_div)
  show de: "?bs dvd end_addr ebs offset fsize"
    by (simp only: e minus_mod_eq_mult_div) simp
  show "b' \<le> begin_addr ebs offset" if "?bs dvd b'" "b' \<le> offset"
  proof -
    from that(1) obtain k where k: "b' = ?bs * k" by (auto simp add: dvd_def)
    have "k \<le> offset div ?bs"
    proof (rule ccontr)
      assume "\<not> k \<le> offset div ?bs"
      then have "offset div ?bs + 1 \<le> k" by simp
      with pos have "?bs * (offset div ?bs + 1) \<le> ?bs * k" by simp
      with k that(2) have "?bs * (offset div ?bs) + ?bs \<le> offset" by (simp add: algebra_simps)
      moreover have "offset = ?bs * (offset div ?bs) + offset mod ?bs" by simp
      ultimately show False using mb by linarith
    qed
    with pos have "?bs * k \<le> ?bs * (offset div ?bs)" by simp
    with k show ?thesis by (simp add: b minus_mod_eq_mult_div)
  qed
  show "end_addr ebs offset fsize \<le> e'" if "?bs dvd e'" "offset + fsize \<le> e'"
  proof -
    from that(1) obtain k where k: "e' = ?bs * k" by (auto simp add: dvd_def)
    have "?s div ?bs \<le> k"
    proof (rule ccontr)
      assume "\<not> ?s div ?bs \<le> k"
      then have "k + 1 \<le> ?s div ?bs" by simp
      with pos have "?bs * (k + 1) \<le> ?bs * (?s div ?bs)" by simp
      also have "\<dots> \<le> ?s" using pos by (simp add: minus_mod_eq_mult_div [symmetric])
      finally have "e' + ?bs \<le> ?s" using k by (simp add: algebra_simps)
      with that(2) show False by (simp add: block_mask_def)
    qed
    with pos have "?bs * (?s div ?bs) \<le> ?bs * k" by simp
    with k show ?thesis by (simp add: e minus_mod_eq_mult_div)
  qed
qed


lemma erase_body_eq:
  assumes "ebs \<in> {4, 32, 64}"
  shows "(let st = flash_write_enable st0;
              st = erase_block ebs addr st;
              st = (if verbose st then snd (flash_read_status st) else st)
          in flash_wait st) = erase_cycle ebs addr st0"
proof -
  from assms consider "ebs = 4" | "ebs = 32" | "ebs = 64" by blast
  then show ?thesis
    by cases
      (simp_all add: erase_cycle_def erase_block_def erase_opcode_def flash_4kB_sector_erase_def
        flash_32kB_sector_erase_def flash_64kB_sector_erase_def Let_def)
qed

lemma erase_loop_step:
  assumes "ebs \<in> {4, 32, 64}" "addr < e"
  shows "erase_loop ebs e addr st =
           Option.bind (erase_cycle ebs addr st) (erase_loop ebs e (addr + block_size ebs))"
proof -
  have "erase_loop ebs e addr st =
      Option.bind (let st1 = flash_write_enable st;
                       st1 = erase_block ebs addr st1;
                       st1 = (if verbose st1 then snd (flash_read_status st1) else st1)
                   in flash_wait st1)
        (erase_loop ebs e (addr + block_size ebs))"
    using assms(2) by (subst erase_loop.simps) (simp add: Let_def)
  then show ?thesis by (simp only: erase_body_eq [OF assms(1)])
qed

lemma erase_loop_done: "\<not> addr < e \<Longrightarrow> erase_loop ebs e addr st = Some st"
  by (subst erase_loop.simps) simp

lemma erase_loop_blocks:
  assumes "ebs \<in> {4, 32, 64}"
  shows "erase_loop ebs (addr + int n * block_size ebs) addr st =
           fold_option (erase_cycle ebs) (map (\<lambda>k. addr + int k * block_size ebs) [0..<n]) st"
proof (induction n arbitrary: addr st)
  case 0
  then show ?case by (simp add: erase_loop_done)
next
  case (Suc n)
  from block_size_cases [OF assms] have pos: "0 < block_size ebs" by blast
  then have lt: "addr < addr + int (Suc n) * block_size ebs"
    by (simp add: add_pos_nonneg)
  have e: "addr + int (Suc n) * block_size ebs = addr + block_size ebs + int n * block_size ebs"
    by (simp add: algebra_simps)
  have rest: "erase_loop ebs (addr + block_size ebs + int n * block_size ebs) (addr + block_size ebs) =
      fold_option (erase_cycle ebs)
        (map (\<lambda>k. addr + block_size ebs + int k * block_size ebs) [0..<n])"
    by (rule ext) (rule Suc.IH)
  have l: "map (\<lambda>k. addr + int k * block_size ebs) [0..<Suc n] =
      addr # map (\<lambda>k. addr + block_size ebs + int k * block_size ebs) [0..<n]"
    by (simp only: map_upt_Suc) (simp add: algebra_simps)
  show ?case
    by (simp only: erase_loop_step [OF assms lt] l fold_option.simps) (simp only: e rest)
qed

text \<open>C3. For an erase block size of 4, 32 or 64 KiB and an offset and length that fit an
  \<^verbatim>\<open>int\<close>, the erase pass computes a range \<open>[begin, end)\<close> with \<open>begin \<le> offset\<close> and
  \<open>end \<ge> offset + length\<close>, both multiples of the block size, and no aligned range that
  covers the data is shorter; it then runs, for each block address of the range in turn,
  Write Enable, the erase command of that size (SE, BE32 or BE64), the status read of verbose
  mode, and the wait.\<close>

theorem erase_pass_covers_aligned_range:
  assumes "erase_block_size opts \<in> {4, 32, 64}"
    and "0 \<le> rw_offset opts" and "0 \<le> file_size opts"
    and "rw_offset opts + file_size opts + block_mask (erase_block_size opts) < 2 ^ 31"
    and "bs = block_size (erase_block_size opts)"
    and "b = begin_addr (erase_block_size opts) (rw_offset opts)"
    and "e = end_addr (erase_block_size opts) (rw_offset opts) (file_size opts)"
  shows "bs = erase_block_size opts * 1024
       \<and> b \<le> rw_offset opts \<and> rw_offset opts + file_size opts \<le> e
       \<and> bs dvd b \<and> bs dvd e
       \<and> (\<forall>b' e'. bs dvd b' \<and> bs dvd e' \<and> b' \<le> rw_offset opts \<and>
                    rw_offset opts + file_size opts \<le> e' \<longrightarrow> e - b \<le> e' - b')
       \<and> erase_pass opts st =
           fold_option (erase_cycle (erase_block_size opts)) (block_addrs bs b e) st
       \<and> erase_opcode 4 = FC_SE \<and> erase_opcode 32 = FC_BE32 \<and> erase_opcode 64 = FC_BE64"
proof -
  note p = erase_range_properties [OF assms(1-4), folded assms(5-7)]
  from block_size_cases [OF assms(1)] assms(5)
  have bs: "bs = erase_block_size opts * 1024" and pos: "0 < bs" by simp_all
  have min: "e - b \<le> e' - b'"
    if "bs dvd b' \<and> bs dvd e' \<and> b' \<le> rw_offset opts \<and> rw_offset opts + file_size opts \<le> e'"
    for b' e'
    using p(5) [of b'] p(6) [of e'] that by linarith
  from p(1,2) assms(3) have "b \<le> e" by linarith
  moreover from p(3,4) have "bs dvd e - b" by simp
  ultimately have "e = b + int (nat ((e - b) div bs)) * bs" using pos
    by (simp add: pos_imp_zdiv_nonneg_iff)
  then have "erase_loop (erase_block_size opts) e b st =
      fold_option (erase_cycle (erase_block_size opts))
        (map (\<lambda>k. b + int k * bs) [0..<nat ((e - b) div bs)]) st"
    using erase_loop_blocks [OF assms(1), of b "nat ((e - b) div bs)" st, folded assms(5)]
    by simp
  then have loop: "erase_pass opts st =
      fold_option (erase_cycle (erase_block_size opts)) (block_addrs bs b e) st"
    by (simp add: erase_pass_def block_addrs_def assms(6,7))
  from bs p(1-4) min loop show ?thesis
    by (simp add: erase_opcode_def)
qed


lemma erase_options_fields:
  "erase_block_size erase_options = 64" "rw_offset erase_options = 70000"
  "file_size erase_options = 10"
  by (simp_all add: erase_options_def default_options_def)

lemma erase_range_70000:
  "block_size 64 = 65536" "block_mask 64 = 65535"
  "begin_addr 64 70000 = 65536" "end_addr 64 70000 10 = 131072"
proof -
  show bs: "block_size 64 = 65536" by (simp add: block_size_def push_bit_eq_mult)
  then show bm: "block_mask 64 = 65535" by (simp add: block_mask_def)
  show "begin_addr 64 70000 = 65536"
    using begin_addr_eq [of 64 70000] bs by simp
  show "end_addr 64 70000 10 = 131072"
    using end_addr_eq [of 64 70000 10] bs bm by simp
qed

theorem erase_pass_covers_aligned_range_witness:
  "erase_block_size erase_options \<in> {4, 32, 64}
   \<and> 0 \<le> rw_offset erase_options \<and> 0 \<le> file_size erase_options
   \<and> rw_offset erase_options + file_size erase_options +
       block_mask (erase_block_size erase_options) < 2 ^ 31
   \<and> begin_addr 64 70000 = 65536 \<and> end_addr 64 70000 10 = 131072
   \<and> erase_pass erase_options (boot_state empty_chain) =
       fold_option (erase_cycle 64) [65536] (boot_state empty_chain)"
proof -
  have h: "erase_block_size erase_options \<in> {4, 32, 64}"
    "0 \<le> rw_offset erase_options" "0 \<le> file_size erase_options"
    "rw_offset erase_options + file_size erase_options +
       block_mask (erase_block_size erase_options) < 2 ^ 31"
    by (simp_all add: erase_options_fields erase_range_70000)
  have l: "block_addrs 65536 65536 131072 = [65536]"
    by (simp add: block_addrs_def)
  from erase_pass_covers_aligned_range [OF h refl refl refl, of "boot_state empty_chain"]
  have "erase_pass erase_options (boot_state empty_chain) =
       fold_option (erase_cycle 64) [65536] (boot_state empty_chain)"
    by (simp only: erase_options_fields erase_range_70000 l)
  with h show ?thesis by (simp add: erase_range_70000)
qed

section \<open>The verify pass\<close>

lemma length_reverse_bytes [simp]: "length (reverse_bytes n d) = length d"
  by (simp add: reverse_bytes_def)

lemma length_flash_continue_read [simp]: "length (fst (flash_continue_read n st)) = n"
  by (simp add: flash_continue_read_def send_spi_def jtag_tap_shift_def jtag_go_to_state_def
      emit_def Let_def)


lemma verify_loop_step:
  assumes "f \<noteq> []" "addr < fsize"
  shows "verify_loop fsize addr f st =
           (if chunk_matches (take 4096 f) st
            then verify_loop fsize (addr + 4096) (drop 4096 f)
                   (snd (flash_continue_read (length (take 4096 f)) st))
            else Inl (jtag_error 3 (qprintf Msg_found_difference
                        (snd (flash_continue_read (length (take 4096 f)) st)))))"
proof -
  have 1: "take (length (take 4096 f)) (take 4096 f) = take 4096 f"
    by (simp only: take_all order_refl)
  have 2: "take (length (take 4096 f)) (fst (flash_continue_read (length (take 4096 f)) st)) =
      fst (flash_continue_read (length (take 4096 f)) st)"
    by (simp only: length_flash_continue_read take_all order_refl)
  have 3: "(int (length (take 4096 f)) \<le> 0) = False" using assms(1) by simp
  have "verify_loop fsize addr f st =
      (let buffer_file = take 4096 f;
           rc = int (length buffer_file)
       in if rc \<le> 0 then Inr st
          else (let (buffer_flash, st1) = flash_continue_read (nat rc) st
                in if take (nat rc) buffer_file \<noteq> take (nat rc) buffer_flash
                   then Inl (jtag_error 3 (qprintf Msg_found_difference st1))
                   else verify_loop fsize (addr + 4096) (drop 4096 f) st1))"
    using assms(2) by (subst verify_loop.simps) (simp only: if_True)
  also have "\<dots> =
      (if take 4096 f \<noteq> fst (flash_continue_read (length (take 4096 f)) st)
       then Inl (jtag_error 3 (qprintf Msg_found_difference
                   (snd (flash_continue_read (length (take 4096 f)) st))))
       else verify_loop fsize (addr + 4096) (drop 4096 f)
              (snd (flash_continue_read (length (take 4096 f)) st)))"
    by (simp only: Let_def split_def nat_int 1 2 3 if_False)
  finally show ?thesis
    by (auto simp add: chunk_matches_def)
qed


lemma after_reads_Cons:
  "after_reads (c # cs) st = after_reads cs (snd (flash_continue_read (length c) st))"
  by (simp add: after_reads_def)


lemma verify_chunks_all_match:
  "(\<And>j. j < length cs \<Longrightarrow> chunk_matches (cs ! j) (after_reads (take j cs) st)) \<Longrightarrow>
   verify_chunks cs st = Inr (after_reads cs st)"
proof (induction cs arbitrary: st)
  case Nil
  then show ?case by (simp add: after_reads_def)
next
  case (Cons c cs)
  let ?st1 = "snd (flash_continue_read (length c) st)"
  from Cons.prems [of 0] have m: "chunk_matches c st" by (simp add: after_reads_def)
  have a: "chunk_matches (cs ! j) (after_reads (take j cs) ?st1)" if "j < length cs" for j
    using Cons.prems [of "Suc j"] that by (simp add: after_reads_Cons)
  from Cons.IH [OF a] m show ?case by (simp add: after_reads_Cons)
qed

lemma flash_pass_check_mode:
  assumes "check_mode opts" "\<not> read_mode opts" "\<not> erase_mode opts" "\<not> disable_verify opts"
  shows "flash_pass opts f st =
           (case verify_loop (file_size opts) 0 f (flash_start_read (rw_offset opts) (flash_prologue st)) of
              Inl ended \<Rightarrow> Some ended
            | Inr st' \<Rightarrow> Some (main_exit opts (qprintf Msg_verify_ok st')))"
  using assms
  by (simp add: flash_pass_def program_section_def verify_section_def split: sum.splits)

subsection \<open>Later states of a run\<close>

lemma continues_refl [simp]: "continues st st"
  by (simp add: continues_def)

lemma continues_trans: "continues a b \<Longrightarrow> continues b c \<Longrightarrow> continues a c"
  by (auto simp add: continues_def)

lemmas prim_defs = emit_def qprintf_def usleep_def jtag_init_def jtag_deinit_def
  jtag_go_to_state_def jtag_wait_time_def jtag_tap_shift_def jtag_current_state_def

lemma continues_prims [simp]:
  "continues st (emit e st)" "continues st (qprintf m st)" "continues st (usleep n st)"
  "continues st (jtag_init i d c st)" "continues st (jtag_deinit st)"
  "continues st (jtag_go_to_state t st)" "continues st (jtag_wait_time n st)"
  "continues st (snd (jtag_tap_shift data bits must_end st))"
  "continues st (fwrite bytes st)"
  by (simp_all add: continues_def prim_defs fwrite_def Let_def)

lemma continues_step: "continues st st1 \<Longrightarrow> continues st1 st2 \<Longrightarrow> continues st st2"
  by (rule continues_trans)

lemma continues_spi [simp]:
  "continues st (snd (xfer_spi data len st))" "continues st (snd (send_spi data len st))"
  by (simp_all add: continues_def xfer_spi_def send_spi_def prim_defs Let_def split_def)

lemma continues_cmds [simp]:
  "continues st (ecp_jtag_cmd c st)" "continues st (ecp_jtag_cmd8 c p st)"
  "continues st (enter_spi_background_mode st)" "continues st (flash_reset st)"
  by (simp_all add: continues_def ecp_jtag_cmd_def ecp_jtag_cmd8_def enter_spi_background_mode_def
      flash_reset_def prim_defs Let_def split_def)

lemma continues_print_idcode [simp]: "continues st (print_idcode tabs idcode st)"
  by (simp add: continues_def print_idcode_def prim_defs Let_def split: option.splits)


lemma continues_read_status_register [simp]: "continues st (read_status_register st)"
  by (simp add: continues_def read_status_register_def print_ecp5_status_register_def
      print_nx_status_register_def prim_defs Let_def split_def)

lemma continues_flash_simple [simp]:
  "continues st (flash_read_id st)"
  "continues st (snd (read_status_1 st))" "continues st (snd (read_status_2 st))"
  "continues st (flash_bulk_erase st)"
  "continues st (flash_4kB_sector_erase a st)" "continues st (flash_32kB_sector_erase a st)"
  "continues st (flash_64kB_sector_erase a st)"
  "continues st (flash_start_read a st)" "continues st (snd (flash_continue_read n st))"
  by (simp_all add: continues_def flash_read_id_def read_status_1_def read_status_2_def
      flash_bulk_erase_def flash_4kB_sector_erase_def flash_32kB_sector_erase_def
      flash_64kB_sector_erase_def flash_start_read_def flash_continue_read_def
      xfer_spi_def send_spi_def prim_defs Let_def split_def)

lemma continues_flash_read_status [simp]: "continues st (snd (flash_read_status st))"
proof -
  have "snd (flash_read_status st) = snd (read_status_2 (snd (read_status_1 st)))"
    by (simp add: flash_read_status_def split_def Let_def)
  then show ?thesis
    using continues_trans [OF continues_flash_simple(2) continues_flash_simple(3)] by simp
qed

lemma continues_verbose: "continues st st' \<Longrightarrow> verbose st' = verbose st"
  by (simp add: continues_def)

lemma continues_flash_write_enable [simp]: "continues st (flash_write_enable st)"
proof (cases "verbose st")
  case False
  let ?b = "snd (xfer_spi [FC_WE] 1 st)"
  have "\<not> verbose ?b" using False continues_verbose [OF continues_spi(1)] by simp
  with False have "flash_write_enable st = ?b"
    by (simp add: flash_write_enable_def Let_def split_def)
  then show ?thesis by simp
next
  case True
  let ?a = "snd (flash_read_status st)"
  let ?b = "snd (xfer_spi [FC_WE] 1 ?a)"
  let ?c = "snd (flash_read_status ?b)"
  have "verbose ?a" using True continues_verbose [OF continues_flash_read_status] by simp
  then have "verbose ?b" using continues_verbose [OF continues_spi(1)] by simp
  with True have "flash_write_enable st = ?c"
    by (simp add: flash_write_enable_def Let_def split_def)
  moreover have "continues st ?c"
    by (rule continues_trans [OF continues_flash_read_status
          continues_trans [OF continues_spi(1) continues_flash_read_status]])
  ultimately show ?thesis by simp
qed

lemma continues_flash_prog [simp]: "continues st (snd (flash_prog a d n st))"
proof -
  let ?a = "snd (send_spi [FC_PP, addr_byte 16 a, addr_byte 8 a, addr_byte 0 a] 4 st)"
  have "snd (flash_prog a d n st) = snd (xfer_spi d n ?a)"
    by (simp add: flash_prog_def split_def)
  moreover have "continues st (snd (xfer_spi d n ?a))"
    by (rule continues_trans [OF continues_spi(2) continues_spi(1)])
  ultimately show ?thesis by simp
qed





lemma shifts_flash_continue_read [simp]:
  "shifts (snd (flash_continue_read n st)) = Suc (shifts st)"
  by (simp add: flash_continue_read_def send_spi_def prim_defs Let_def split_def)

lemma shifts_after_reads [simp]: "shifts (after_reads cs st) = shifts st + length cs"
  by (induction cs arbitrary: st) (simp_all add: after_reads_Cons, simp add: after_reads_def)








section \<open>A run after an unknown IDCODE\<close>

lemma continues_next_poll [simp]: "continues st (next_poll st)" "continues st (poll_state st)"
  unfolding next_poll_def poll_state_def
  by (rule continues_trans [OF continues_spi(1) continues_prims(3)], rule continues_spi(1))

lemma continues_funpow_next_poll [simp]: "continues st ((next_poll ^^ k) st)"
  by (induction k) (simp_all, metis continues_trans continues_next_poll(1))

lemma continues_flash_wait_loop: "flash_wait_loop c st = Some st' \<Longrightarrow> continues st st'"
proof -
  assume "flash_wait_loop c st = Some st'"
  then obtain k where "st' = poll_state ((next_poll ^^ k) st)"
    using Some_imp_returns_at by blast
  then show ?thesis
    using continues_trans [OF continues_funpow_next_poll continues_next_poll(2)] by simp
qed

lemma continues_flash_wait: "flash_wait st = Some st' \<Longrightarrow> continues st st'"
  unfolding flash_wait_def by (rule continues_flash_wait_loop)

lemma continues_flash_disable_protection:
  assumes "flash_disable_protection st = Some st'"
  shows "continues st st'"
proof -
  let ?x = "xfer_spi [FC_WSR1, 0x00] 2 st"
  from assms obtain w where w: "flash_wait (snd ?x) = Some w"
    by (auto simp add: flash_disable_protection_def split_def Let_def split: option.splits)
  let ?y = "xfer_spi ((fst ?x)[0 := FC_RSR1]) 2 w"
  from assms w have "st' = snd ?y \<or> st' = qprintf (Msg_protection_failed (fst ?y ! 1)) (snd ?y)"
    by (auto simp add: flash_disable_protection_def split_def Let_def split: if_splits)
  moreover have "continues st (snd ?y)"
    by (rule continues_trans [OF continues_spi(1)
          continues_trans [OF continues_flash_wait [OF w] continues_spi(1)]])
  ultimately show ?thesis
    using continues_trans [OF _ continues_prims(2)] by blast
qed

lemma continues_erase_block [simp]: "continues st (erase_block ebs a st)"
  by (simp add: erase_block_def)

lemma continues_erase_loop:
  assumes a: "erase_loop ebs e addr st = Some st'"
  shows "continues st st'"
proof (rule erase_loop.raw_induct [where P = "\<lambda>ebs e addr st st'. continues st st'", OF _ a])
  fix loop :: "int \<Rightarrow> int \<Rightarrow> int \<Rightarrow> state \<Rightarrow> state option" and ebs e addr st st'
  assume IH: "\<And>ebs e addr st y. loop ebs e addr st = Some y \<Longrightarrow> continues st y"
    and body: "(if addr < e
                then let st1 = flash_write_enable st;
                         st1 = erase_block ebs addr st1;
                         st1 = if verbose st1 then snd (flash_read_status st1) else st1
                     in flash_wait st1 \<bind> loop ebs e (addr + block_size ebs)
                else Some st) = Some st'"
  show "continues st st'"
  proof (cases "addr < e")
    case False
    with body show ?thesis by simp
  next
    case True
    let ?a = "erase_block ebs addr (flash_write_enable st)"
    let ?b = "if verbose ?a then snd (flash_read_status ?a) else ?a"
    from body True obtain w where w: "flash_wait ?b = Some w"
      and l: "loop ebs e (addr + block_size ebs) w = Some st'"
      by (auto simp add: Let_def bind_eq_Some_conv)
    have "continues st ?a"
      by (rule continues_trans [OF continues_flash_write_enable continues_erase_block])
    moreover have "continues ?a ?b" by simp
    ultimately have "continues st ?b" by (rule continues_trans)
    from continues_trans [OF this continues_trans [OF continues_flash_wait [OF w] IH [OF l]]]
    show ?thesis .
  qed
qed

lemma continues_prog_loop: "prog_loop offset addr f st = Some st' \<Longrightarrow> continues st st'"
proof (induction f arbitrary: addr st rule: length_induct)
  case (1 f)
  let ?n = "nat (256 - (offset + addr) smod 256)"
  show ?case
  proof (cases "take ?n f = []")
    case True
    with 1(2) show ?thesis by (subst (asm) prog_loop.simps) (simp add: Let_def)
  next
    case False
    let ?a = "snd (flash_prog (offset + addr) (take ?n f) (length (take ?n f)) (flash_write_enable st))"
    from False have less: "length (drop ?n f) < length f" by (cases "?n") auto
    from 1(2) False obtain w where w: "flash_wait ?a = Some w"
      and l: "prog_loop offset (addr + int (length (take ?n f))) (drop ?n f) w = Some st'"
      by (subst (asm) prog_loop.simps)
         (auto simp add: Let_def split_def bind_eq_Some_conv simp del: length_take)
    from 1(1) less l have "continues w st'" by blast
    from continues_trans [OF continues_flash_write_enable
        continues_trans [OF continues_flash_prog
          continues_trans [OF continues_flash_wait [OF w] this]]]
    show ?thesis .
  qed
qed

lemma continues_read_loop: "continues st (read_loop rs addr st)"
proof (induction "nat (rs - addr)" arbitrary: addr st rule: less_induct)
  case less
  show ?case
  proof (cases "addr < rs")
    case False
    then show ?thesis by (subst read_loop.simps) simp
  next
    case True
    let ?r = "flash_continue_read 4096 st"
    let ?w = "fwrite (take (nat (if rs - addr > 4096 then 4096 else rs - addr)) (fst ?r)) (snd ?r)"
    from True have "nat (rs - (addr + 4096)) < nat (rs - addr)" by simp
    then have "continues ?w (read_loop rs (addr + 4096) ?w)" by (rule less)
    from continues_trans [OF continues_flash_simple(9)
        continues_trans [OF continues_prims(9) this]] True
    show ?thesis by (subst read_loop.simps) (simp add: Let_def split_def)
  qed
qed

lemma continues_verify_loop:
  "(verify_loop fsize addr f st = Inl (c, st') \<longrightarrow> c = 3 \<and> continues st st') \<and>
   (verify_loop fsize addr f st = Inr st' \<longrightarrow> continues st st')"
proof (induction f arbitrary: addr st rule: length_induct)
  case (1 f)
  show ?case
  proof (cases "f \<noteq> [] \<and> addr < fsize")
    case False
    then have "verify_loop fsize addr f st = Inr st"
      by (subst verify_loop.simps) (auto simp add: Let_def)
    then show ?thesis by simp
  next
    case True
    let ?r = "snd (flash_continue_read (length (take 4096 f)) st)"
    have r: "continues st ?r" by simp
    from True have less: "length (drop 4096 f) < length f" by simp
    show ?thesis
    proof (cases "chunk_matches (take 4096 f) st")
      case m: True
      with True have "verify_loop fsize addr f st = verify_loop fsize (addr + 4096) (drop 4096 f) ?r"
        by (simp add: verify_loop_step)
      with 1 [rule_format, OF less, of "addr + 4096" ?r] show ?thesis
        by (auto intro: continues_trans [OF continues_flash_simple(9)])
    next
      case m: False
      have "continues st (emit (Jtag_error 3) (qprintf Msg_found_difference ?r))"
        by (rule continues_trans [OF r continues_trans [OF continues_prims(2) continues_prims(1)]])
      with True m show ?thesis by (auto simp add: verify_loop_step jtag_error_def)
    qed
  qed
qed

lemma continues_sram_chunk [simp]: "continues st (sram_chunk c st)"
  unfolding sram_chunk_def by (rule continues_trans [OF continues_prims(6) continues_prims(8)])

lemma continues_sram_loop [simp]: "continues st (sram_loop f st)"
proof -
  have "continues st (fold sram_chunk cs st)" for cs
    by (induction cs arbitrary: st) (simp_all, metis continues_trans continues_sram_chunk)
  then show ?thesis by (simp add: sram_loop_fold)
qed

lemma continues_main_exit: "continues st (snd (main_exit opts st))"
proof -
  let ?a = "if reinitialize opts then ecp_jtag_cmd LSC_REFRESH st else st"
  have "continues st ?a" by simp
  moreover have "snd (main_exit opts st) = jtag_deinit (qprintf Msg_bye ?a)"
    by (simp add: main_exit_def Let_def)
  ultimately show ?thesis
    using continues_trans [OF _ continues_trans [OF continues_prims(2) continues_prims(5)]]
    by simp
qed

lemma fst_main_exit [simp]: "fst (main_exit opts st) = 0"
  by (simp add: main_exit_def Let_def)


lemma continues_erase_pass: "erase_pass opts st = Some st' \<Longrightarrow> continues st st'"
  unfolding erase_pass_def by (rule continues_erase_loop)

lemma continues_program_section:
  assumes "program_section opts f st = Some st'"
  shows "continues st st'"
proof (cases "\<not> read_mode opts \<and> \<not> check_mode opts")
  case False
  with assms show ?thesis by (simp add: program_section_def)
next
  case True
  let ?A = "if disable_protect opts then flash_disable_protection (flash_write_enable st)
            else Some st"
  from assms True obtain a where a: "?A = Some a"
    and rest: "(if \<not> dont_erase opts then
                 (if bulk_erase opts then flash_wait (flash_bulk_erase (flash_write_enable a))
                  else erase_pass opts a)
               else Some a) \<bind>
              (\<lambda>st. if \<not> erase_mode opts then prog_loop (rw_offset opts) 0 f st else Some st) =
              Some st'"
    by (simp add: program_section_def bind_eq_Some_conv) blast
  from rest obtain b where b: "(if \<not> dont_erase opts then
                 (if bulk_erase opts then flash_wait (flash_bulk_erase (flash_write_enable a))
                  else erase_pass opts a)
               else Some a) = Some b"
    and c: "(if \<not> erase_mode opts then prog_loop (rw_offset opts) 0 f b else Some b) = Some st'"
    by (auto simp add: bind_eq_Some_conv)
  have 1: "continues st a"
  proof (cases "disable_protect opts")
    case True
    with a have "flash_disable_protection (flash_write_enable st) = Some a" by simp
    from continues_trans [OF continues_flash_write_enable
        continues_flash_disable_protection [OF this]]
    show ?thesis .
  next
    case False
    with a show ?thesis by simp
  qed
  have 2: "continues a b"
  proof (cases "dont_erase opts")
    case True
    with b show ?thesis by simp
  next
    case False
    show ?thesis
    proof (cases "bulk_erase opts")
      case True
      with False b have "flash_wait (flash_bulk_erase (flash_write_enable a)) = Some b" by simp
      from continues_trans [OF continues_flash_write_enable
          continues_trans [OF continues_flash_simple(4) continues_flash_wait [OF this]]]
      show ?thesis .
    next
      case e: False
      with False b have "erase_pass opts a = Some b" by simp
      then show ?thesis by (rule continues_erase_pass)
    qed
  qed
  have 3: "continues b st'"
  proof (cases "erase_mode opts")
    case True
    with c show ?thesis by simp
  next
    case False
    with c have "prog_loop (rw_offset opts) 0 f b = Some st'" by simp
    then show ?thesis by (rule continues_prog_loop)
  qed
  from continues_trans [OF 1 continues_trans [OF 2 3]] show ?thesis .
qed

lemma verify_section_result:
  "(fst (verify_section opts f st) = 0 \<or> fst (verify_section opts f st) = 3) \<and>
   continues st (snd (verify_section opts f st))"
proof -
  let ?s = "flash_start_read (rw_offset opts) st"
  consider "read_mode opts" | "\<not> read_mode opts" "\<not> erase_mode opts \<and> \<not> disable_verify opts"
    | "\<not> read_mode opts" "\<not> (\<not> erase_mode opts \<and> \<not> disable_verify opts)"
    by blast
  then show ?thesis
  proof cases
    case 1
    then have "verify_section opts f st = main_exit opts (read_loop (read_size opts) 0 ?s)"
      by (simp add: verify_section_def)
    with continues_trans [OF continues_flash_simple(8)
        continues_trans [OF continues_read_loop continues_main_exit]]
    show ?thesis by simp
  next
    case 2
    show ?thesis
    proof (cases "verify_loop (file_size opts) 0 f ?s")
      case (Inl ended)
      then have v: "verify_loop (file_size opts) 0 f ?s = Inl (fst ended, snd ended)" by simp
      with continues_verify_loop [of "file_size opts" 0 f ?s "fst ended" "snd ended"]
      have e: "fst ended = 3" and "continues ?s (snd ended)" by simp_all
      from continues_trans [OF continues_flash_simple(8) this(2)] e 2 Inl
      show ?thesis by (simp add: verify_section_def)
    next
      case (Inr st2)
      with continues_verify_loop [of "file_size opts" 0 f ?s 0 st2]
      have "continues ?s st2" by simp
      from continues_trans [OF continues_flash_simple(8)
          continues_trans [OF this continues_trans [OF continues_prims(2) continues_main_exit]]]
        2 Inr
      show ?thesis by (simp add: verify_section_def)
    qed
  next
    case 3
    then have "verify_section opts f st = main_exit opts st"
      by (auto simp add: verify_section_def)
    with continues_main_exit show ?thesis by simp
  qed
qed

lemma continues_enable_prologue:
  "continues (ecp_jtag_cmd8 ISC_ENABLE 0 st) (flash_prologue st)"
  unfolding flash_prologue_def
  by (rule continues_trans [OF continues_cmds(2)], rule continues_trans [OF continues_cmds(2)],
      rule continues_trans [OF continues_cmds(3)], rule continues_trans [OF continues_cmds(4)],
      rule continues_flash_simple(1))

lemma flash_pass_result:
  assumes "flash_pass opts f st = Some (code, st')"
  shows "(code = 0 \<or> code = 3) \<and> continues (ecp_jtag_cmd8 ISC_ENABLE 0 st) st'"
proof -
  from assms obtain p where p: "program_section opts f (flash_prologue st) = Some p"
    and v: "verify_section opts f p = (code, st')"
    by (auto simp add: flash_pass_def bind_eq_Some_conv)
  from verify_section_result [of opts f p] v
  have "code = 0 \<or> code = 3" "continues p st'" by simp_all
  with continues_trans [OF continues_enable_prologue
      continues_trans [OF continues_program_section [OF p]]]
  show ?thesis by blast
qed

lemma test_pass_result: "continues (ecp_jtag_cmd8 ISC_ENABLE 0 st) (test_pass st)"
  unfolding test_pass_def Let_def
  by (rule continues_trans [OF continues_prims(3)], rule continues_trans [OF continues_cmds(2)],
      rule continues_trans [OF continues_prims(3)], rule continues_trans [OF continues_cmds(1)],
      rule continues_trans [OF continues_cmds(3)], rule continues_trans [OF continues_cmds(4)],
      rule continues_trans [OF continues_flash_simple(1)], rule continues_flash_read_status)

lemma sram_pass_result: "continues (ecp_jtag_cmd8 ISC_ENABLE 0 st) (sram_pass f st)"
  unfolding sram_pass_def Let_def
  by (rule continues_trans [OF continues_cmds(2)], rule continues_trans [OF continues_cmds(2)],
      rule continues_trans [OF continues_read_status_register],
      rule continues_trans [OF continues_cmds(1)], rule continues_trans [OF continues_sram_loop],
      rule continues_trans [OF continues_cmds(1)], rule continues_read_status_register)

lemma ecpprog_main_result:
  assumes "ecpprog_main opts tabs f st0 = Some (code, st')"
  shows "(code = 0 \<or> code = 3) \<and>
         continues (ecp_jtag_cmd8 ISC_ENABLE 0 (mode_start opts tabs st0)) st'"
proof -
  let ?m = "mode_start opts tabs st0"
  consider "test_mode opts" | "\<not> test_mode opts" "prog_sram opts"
    | "\<not> test_mode opts" "\<not> prog_sram opts" by blast
  then show ?thesis
  proof cases
    case 1
    with assms have "(code, st') = main_exit opts (test_pass ?m)"
      by (simp add: ecpprog_main_def mode_start_def Let_def)
    then have "code = 0" "st' = snd (main_exit opts (test_pass ?m))"
      by (simp_all add: prod_eq_iff)
    with continues_trans [OF test_pass_result continues_main_exit] show ?thesis by simp
  next
    case 2
    with assms have "(code, st') = main_exit opts (sram_pass f ?m)"
      by (simp add: ecpprog_main_def mode_start_def Let_def)
    then have "code = 0" "st' = snd (main_exit opts (sram_pass f ?m))"
      by (simp_all add: prod_eq_iff)
    with continues_trans [OF sram_pass_result continues_main_exit] show ?thesis by simp
  next
    case 3
    with assms have "flash_pass opts f ?m = Some (code, st')"
      by (simp add: ecpprog_main_def mode_start_def Let_def)
    then show ?thesis by (rule flash_pass_result)
  qed
qed

lemma ecpprog_main_test_sram:
  assumes "test_mode opts \<or> prog_sram opts"
  shows "\<exists>st'. ecpprog_main opts tabs f st0 = Some (0, st')"
  using assms
  by (auto simp add: ecpprog_main_def Let_def prod_eq_iff intro: exI)


lemma read_idcode_no_match:
  assumes "idcode_read st \<notin> snd ` set (ecp_devices tabs)"
    and "idcode_read st \<notin> snd ` set (nx_devices tabs)"
  shows "last (trace (read_idcode tabs st)) = Qprintf (Msg_idcode_no_match (idcode_read st))"
  using assms find_device_None [of "ecp_devices tabs" "idcode_read st"]
    find_device_None [of "nx_devices tabs" "idcode_read st"]
  by (simp add: read_idcode_eq print_idcode_def qprintf_def emit_def Let_def)

lemma trace_isc_enable:
  "trace (ecp_jtag_cmd8 ISC_ENABLE 0 st) =
     trace st @ [Jtag_go_to_state STATE_SHIFT_IR, Jtag_tap_shift [ISC_ENABLE] 8 True,
                 Jtag_go_to_state STATE_SHIFT_DR, Jtag_tap_shift [0] 8 True,
                 Jtag_go_to_state STATE_RUN_TEST_IDLE, Jtag_wait_time 32]"
  by (simp add: ecp_jtag_cmd8_def prim_defs Let_def singleton_update)

text \<open>C1, as the code has it. When the IDCODE read matches no entry of either table,
  \<^verbatim>\<open>print_idcode\<close> only reports it: the device type stays what it was. The run goes on
  with the status read and the ISC_ENABLE command that opens every mode, and whatever it
  does afterwards, a run that ends has status 0, or 3 from the verify pass, never 2; in
  test mode and in SRAM mode it always ends, with status 0.\<close>

theorem unknown_idcode_is_only_reported:
  assumes "st1 = read_idcode tabs (jtag_init (ifnum opts) (devstr opts) (clkdiv opts) st0)"
    and "dev_id (connected_device st1) \<notin> snd ` set (ecp_devices tabs)"
    and "dev_id (connected_device st1) \<notin> snd ` set (nx_devices tabs)"
    and "st2 = ecp_jtag_cmd8 ISC_ENABLE 0 (read_status_register st1)"
  shows "dev_type (connected_device st1) = dev_type (connected_device st0)
       \<and> last (trace st1) = Qprintf (Msg_idcode_no_match (dev_id (connected_device st1)))
       \<and> trace st2 = trace (read_status_register st1) @
                        [Jtag_go_to_state STATE_SHIFT_IR, Jtag_tap_shift [ISC_ENABLE] 8 True,
                         Jtag_go_to_state STATE_SHIFT_DR, Jtag_tap_shift [0] 8 True,
                         Jtag_go_to_state STATE_RUN_TEST_IDLE, Jtag_wait_time 32]
       \<and> (\<forall>code st'. ecpprog_main opts tabs f st0 = Some (code, st') \<longrightarrow>
             (code = 0 \<or> code = 3) \<and> prefix (trace st2) (trace st'))
       \<and> (test_mode opts \<or> prog_sram opts \<longrightarrow>
             (\<exists>st'. ecpprog_main opts tabs f st0 = Some (0, st')))"
proof -
  let ?i = "jtag_init (ifnum opts) (devstr opts) (clkdiv opts) st0"
  from assms(1-3) have n: "idcode_read ?i \<notin> snd ` set (ecp_devices tabs)"
    "idcode_read ?i \<notin> snd ` set (nx_devices tabs)"
    by (simp_all add: read_idcode_id)
  have "dev_type (connected_device ?i) = dev_type (connected_device st0)"
    by (simp add: jtag_init_def emit_def)
  with n have 1: "dev_type (connected_device st1) = dev_type (connected_device st0)"
    by (simp add: assms(1) read_idcode_type)
  have 2: "last (trace st1) = Qprintf (Msg_idcode_no_match (dev_id (connected_device st1)))"
    using read_idcode_no_match [OF n] by (simp add: assms(1) read_idcode_id)
  have 3: "trace st2 = trace (read_status_register st1) @
                        [Jtag_go_to_state STATE_SHIFT_IR, Jtag_tap_shift [ISC_ENABLE] 8 True,
                         Jtag_go_to_state STATE_SHIFT_DR, Jtag_tap_shift [0] 8 True,
                         Jtag_go_to_state STATE_RUN_TEST_IDLE, Jtag_wait_time 32]"
    unfolding assms(4) by (rule trace_isc_enable)
  have st2: "st2 = ecp_jtag_cmd8 ISC_ENABLE 0 (mode_start opts tabs st0)"
    by (simp add: assms(1,4) mode_start_def)
  have 4: "(code = 0 \<or> code = 3) \<and> prefix (trace st2) (trace st')"
    if "ecpprog_main opts tabs f st0 = Some (code, st')" for code st'
    using ecpprog_main_result [OF that] by (simp add: st2 continues_def)
  from 1 2 3 4 ecpprog_main_test_sram [of opts tabs f st0] show ?thesis by blast
qed

lemma test_options_fields:
  "test_mode test_options" "ifnum test_options = 0" "devstr test_options = None"
  "clkdiv test_options = 1" "\<not> reinitialize test_options"
  by (simp_all add: test_options_def default_options_def)

lemma idcode_read_after_init:
  "idcode_read (jtag_init 0 None 1 (boot_state empty_chain)) = 0"
  by (simp add: idcode_read_def jtag_init_def emit_def boot_state_def empty_chain_def
      tdo_bytes_def replicate4)

lemma test_run_unknown_idcode:
  "ecpprog_main test_options example_tables [] (boot_state empty_chain) =
     Some (main_exit test_options
             (test_pass (mode_start test_options example_tables (boot_state empty_chain))))"
  by (simp add: ecpprog_main_def mode_start_def Let_def test_options_fields)

theorem unknown_idcode_is_only_reported_witness:
  "dev_id (connected_device
      (read_idcode example_tables (jtag_init 0 None 1 (boot_state empty_chain)))) = 0
   \<and> 0 \<notin> snd ` set (ecp_devices example_tables) \<and> 0 \<notin> snd ` set (nx_devices example_tables)
   \<and> dev_type (connected_device
        (read_idcode example_tables (jtag_init 0 None 1 (boot_state empty_chain)))) = TYPE_NONE
   \<and> map_option fst (ecpprog_main test_options example_tables [] (boot_state empty_chain)) = Some 0"
proof -
  let ?st1 = "read_idcode example_tables (jtag_init 0 None 1 (boot_state empty_chain))"
  have i: "dev_id (connected_device ?st1) = 0"
    by (simp add: read_idcode_id idcode_read_after_init)
  have e: "dev_id (connected_device ?st1) \<notin> snd ` set (ecp_devices example_tables)"
    and n: "dev_id (connected_device ?st1) \<notin> snd ` set (nx_devices example_tables)"
    by (simp_all add: i example_table_ids)
  have s: "?st1 = read_idcode example_tables
      (jtag_init (ifnum test_options) (devstr test_options) (clkdiv test_options)
        (boot_state empty_chain))"
    by (simp add: test_options_fields)
  note t = unknown_idcode_is_only_reported [OF s e n refl, of "[]"]
  from t have "dev_type (connected_device ?st1) = TYPE_NONE"
    by (simp add: boot_state_def)
  moreover from t test_options_fields(1)
  obtain st' where "ecpprog_main test_options example_tables [] (boot_state empty_chain) = Some (0, st')"
    by blast
  then have "map_option fst (ecpprog_main test_options example_tables [] (boot_state empty_chain)) = Some 0"
    by simp
  ultimately show ?thesis using i by (simp add: example_table_ids)
qed

text \<open>A test-mode run (\<^verbatim>\<open>-t\<close>) on a chain that answers the IDCODE shift with zeros, an id
  that is in neither table: the run goes through the vendor sequence, ISC_ENABLE first, and
  returns 0, not 2.\<close>

theorem unknown_idcode_run_counterexample:
  "dev_id (connected_device
      (read_idcode example_tables (jtag_init 0 None 1 (boot_state empty_chain)))) = 0
   \<and> 0 \<notin> snd ` set (ecp_devices example_tables) \<and> 0 \<notin> snd ` set (nx_devices example_tables)
   \<and> map_option fst (ecpprog_main test_options example_tables [] (boot_state empty_chain)) = Some 0
   \<and> Jtag_tap_shift [ISC_ENABLE] 8 True
       \<in> set (trace (snd (the (ecpprog_main test_options example_tables []
                                  (boot_state empty_chain)))))"
proof -
  let ?m = "mode_start test_options example_tables (boot_state empty_chain)"
  let ?e = "ecp_jtag_cmd8 ISC_ENABLE 0 ?m"
  let ?final = "snd (main_exit test_options (test_pass ?m))"
  have i: "dev_id (connected_device
      (read_idcode example_tables (jtag_init 0 None 1 (boot_state empty_chain)))) = 0"
    by (simp add: read_idcode_id idcode_read_after_init)
  have "continues ?e ?final"
    by (rule continues_trans [OF test_pass_result continues_main_exit])
  then have "prefix (trace ?e) (trace ?final)" by (simp add: continues_def)
  then have "set (trace ?e) \<subseteq> set (trace ?final)" by (rule set_mono_prefix)
  moreover have "Jtag_tap_shift [ISC_ENABLE] 8 True \<in> set (trace ?e)"
    by (simp add: trace_isc_enable)
  ultimately have "Jtag_tap_shift [ISC_ENABLE] 8 True \<in> set (trace ?final)" by blast
  with i show ?thesis
    by (simp add: test_run_unknown_idcode example_table_ids)
qed

end
